theory Spec2Isabelle
  imports Complex_Main
begin

chapter \<open>The program\<close>

text \<open>
  A model of the detail scraper of the board game catalogue: the store with the claim
  coordinator of \<^verbatim>\<open>GameRepository\<close>, the rate limiter, the update that writes the details
  of a game, the loop of a worker and the launcher of the parallel workers. The model is
  sequential: every operation of the store is one step, as it is when a single process
  uses the store. What several processes do to the store at the same time depends on the
  isolation of the transactions of the database engine, which is not part of the program.
\<close>

section \<open>The backlog store\<close>

text \<open>
  The store is the relational database behind \<^verbatim>\<open>GameRepository\<close>. Each table is a list
  of rows. Identifiers are natural numbers, timestamps are milliseconds (the value of
  \<^verbatim>\<open>new Date()\<close> is passed to the operation that reads the clock). A nullable column is an
  \<open>option\<close>.
\<close>

type_synonym timestamp = int

text \<open>
  \<^verbatim>\<open>Pick<Game, 'id' | 'bggUrl' | 'name'>\<close>: the three columns that the queries of the
  coordinator select. The column \<^verbatim>\<open>id\<close> is written \<open>game_id\<close>, since \<open>id\<close> is the identity
  function of HOL.
\<close>

record game_pick =
  game_id :: nat
  bggUrl :: string
  name :: string

text \<open>
  Modelled from the spec: the database schema is not among the sources, and the interface
  \<^verbatim>\<open>Game\<close> of the models lists no lease column. The columns \<open>processingBy\<close> and
  \<open>processingAt\<close> are the ones \<^verbatim>\<open>GameRepository\<close> reads and writes; they are the
  \<^verbatim>\<open>leaseOwner\<close> and \<^verbatim>\<open>leaseAt\<close> of the specification's work item, both nullable.
\<close>

record game = game_pick +
  rank :: int
  year :: "int option"
  minPlayers :: "int option"
  maxPlayers :: "int option"
  minPlayingTime :: "int option"
  maxPlayingTime :: "int option"
  weight :: "real option"
  languageDependenceId :: "nat option"
  officialAge :: "int option"
  scrapedAt :: timestamp
  processingBy :: "string option"
  processingAt :: "timestamp option"

record playerRating =
  playerCount :: int
  bestPercentage :: "real option"
  recommendedPercentage :: "real option"
  notRecommendedPercentage :: "real option"
  totalVotes :: "int option"

record ageRating =
  age :: int
  percentage :: "real option"
  voteCount :: "int option"

text \<open>
  The tables carry the names of the query layer (\<^verbatim>\<open>tx.game\<close>, \<^verbatim>\<open>tx.category\<close>,
  \<^verbatim>\<open>tx.gameCategory\<close>, ...). A lookup table maps a unique text to its identifier; a link
  table holds pairs (game identifier, lookup identifier); a community table holds pairs
  (game identifier, rating).
\<close>

record database =
  game :: "game list"
  languageDependence :: "(string \<times> nat) list"
  category :: "(string \<times> nat) list"
  mechanism :: "(string \<times> nat) list"
  family :: "(string \<times> nat) list"
  gameCategory :: "(nat \<times> nat) list"
  gameMechanism :: "(nat \<times> nat) list"
  gameFamily :: "(nat \<times> nat) list"
  communityPlayerRating :: "(nat \<times> playerRating) list"
  communityAgeRating :: "(nat \<times> ageRating) list"

subsection \<open>Queries of the coordinator\<close>

text \<open>
  The filter of \<^verbatim>\<open>findAllWithoutDetails\<close>, repeated inside \<^verbatim>\<open>claimGamesForProcessing\<close>:
  the weight is null, or the game has no category link and no mechanism link and no family
  link.
\<close>

definition withoutDetails :: "database \<Rightarrow> game \<Rightarrow> bool" where
  "withoutDetails db g \<longleftrightarrow>
     game.weight g = None \<or>
     (game_id g \<notin> set (map fst (gameCategory db)) \<and>
      game_id g \<notin> set (map fst (gameMechanism db)) \<and>
      game_id g \<notin> set (map fst (gameFamily db)))"

definition findAllWithoutDetails :: "database \<Rightarrow> game_pick list" where
  "findAllWithoutDetails db = map game_pick.truncate (filter (withoutDetails db) (game db))"

text \<open>The \<^verbatim>\<open>where\<close> clause of the claim: not leased, and without details.\<close>

definition available :: "database \<Rightarrow> game \<Rightarrow> bool" where
  "available db g \<longleftrightarrow> processingBy g = None \<and> withoutDetails db g"

text \<open>
  \<^verbatim>\<open>game.updateMany({ where, data })\<close>: every row that matches is rewritten, the others are
  left as they are, and the number of matching rows is returned.
\<close>

definition updateMany :: "(game \<Rightarrow> bool) \<Rightarrow> (game \<Rightarrow> game) \<Rightarrow> database \<Rightarrow> nat \<times> database" where
  "updateMany wh data db =
     (length (filter wh (game db)),
      db\<lparr>game := map (\<lambda>g. if wh g then data g else g) (game db)\<rparr>)"

text \<open>
  \<^verbatim>\<open>claimGamesForProcessing(workerId, batchSize)\<close>. The batch size is a row count. The
  query orders the matching rows by identifier, takes the first \<open>batchSize\<close> of them and
  selects three columns; an empty result returns at once; otherwise every row whose
  identifier is among the selected ones gets the lease of the worker.
\<close>

definition claimGamesForProcessing ::
  "string \<Rightarrow> nat \<Rightarrow> timestamp \<Rightarrow> database \<Rightarrow> game_pick list \<times> database" where
  "claimGamesForProcessing workerId batchSize now db =
     (let availableGames =
            map game_pick.truncate
              (take batchSize (sort_key game_id (filter (available db) (game db))))
      in if length availableGames = 0 then ([], db)
         else
           let gameIds = map game_id availableGames
           in (availableGames,
               snd (updateMany (\<lambda>g. game_id g \<in> set gameIds)
                      (\<lambda>g. g\<lparr>processingBy := Some workerId, processingAt := Some now\<rparr>) db)))"

definition releaseClaimedGames :: "string \<Rightarrow> database \<Rightarrow> database" where
  "releaseClaimedGames workerId db =
     snd (updateMany (\<lambda>g. processingBy g = Some workerId)
            (\<lambda>g. g\<lparr>processingBy := None, processingAt := None\<rparr>) db)"

definition releaseAllClaimedGames :: "database \<Rightarrow> nat \<times> database" where
  "releaseAllClaimedGames db =
     updateMany (\<lambda>g. processingBy g \<noteq> None)
       (\<lambda>g. g\<lparr>processingBy := None, processingAt := None\<rparr>) db"

text \<open>The lease of a row is all or nothing.\<close>

definition leaseConsistent :: "game \<Rightarrow> bool" where
  "leaseConsistent g \<longleftrightarrow> (processingBy g \<noteq> None) = (processingAt g \<noteq> None)"

text \<open>A small backlog used to run the operations on concrete rows.\<close>

definition mkGame :: "nat \<Rightarrow> real option \<Rightarrow> string option \<Rightarrow> timestamp option \<Rightarrow> game" where
  "mkGame i w owner since =
     \<lparr>game_id = i, bggUrl = ''u'', name = ''g'', rank = int i, year = None,
      minPlayers = None, maxPlayers = None, minPlayingTime = None, maxPlayingTime = None,
      weight = w, languageDependenceId = None, officialAge = None, scrapedAt = 0,
      processingBy = owner, processingAt = since\<rparr>"

definition mkDb :: "game list \<Rightarrow> (nat \<times> nat) list \<Rightarrow> database" where
  "mkDb gs links =
     \<lparr>game = gs, languageDependence = [], category = [], mechanism = [], family = [],
      gameCategory = links, gameMechanism = [], gameFamily = [],
      communityPlayerRating = [], communityAgeRating = []\<rparr>"

definition backlog0 :: database where
  "backlog0 =
     mkDb [mkGame 3 None None None,
           mkGame 1 None (Some ''worker-2'') (Some 5),
           mkGame 2 (Some 2.5) None None,
           mkGame 4 (Some 1.5) None None,
           mkGame 5 None (Some ''worker-1'') (Some 7)]
          [(2, 7)]"

text \<open>
  A store as workers leave it that stopped without releasing their leases: item 6 is
  complete and still leased, item 7 is pending and still leased.
\<close>

definition stale :: database where
  "stale =
     mkDb [mkGame 6 (Some 2) (Some ''worker-1'') (Some 9),
           mkGame 7 None (Some ''worker-2'') (Some 9)]
          [(6, 7)]"

section \<open>The rate limiter\<close>

text \<open>
  \<^verbatim>\<open>RateLimiter\<close> queues the operations passed to \<^verbatim>\<open>throttle\<close> and runs them one at a
  time. The model is sequential: an operation is a function on the state \<open>'s\<close> of the world
  it acts on (the store, for the scraper) that returns that state and either a result or
  the error it throws. Time is the millisecond clock \<^verbatim>\<open>Date.now()\<close>, an integer; the delays
  are JavaScript numbers and need not be whole.
\<close>

datatype error = Error string

datatype 'a settlement = Resolved 'a | Rejected error

type_synonym ('s, 'a) operation = "'s \<Rightarrow> (error + 'a) \<times> 's"

type_synonym ('s, 'a) task = "'s \<Rightarrow> 'a settlement \<times> 's"

record ('s, 'a) rateLimiter =
  queue :: "('s, 'a) task list"
  running :: bool
  minDelay :: real
  maxDelay :: real
  lastRequestTime :: int

text \<open>The constructor stores the two delays as they are given; it does not compare them.\<close>

definition newRateLimiter :: "real \<Rightarrow> real \<Rightarrow> ('s, 'a) rateLimiter" where
  "newRateLimiter minD maxD =
     \<lparr>queue = [], running = False, minDelay = minD, maxDelay = maxD, lastRequestTime = 0\<rparr>"

text \<open>
  The closure that \<^verbatim>\<open>throttle\<close> pushes on the queue: it awaits \<^verbatim>\<open>fn()\<close> and resolves the
  promise of the caller with the result, or rejects it with the error caught.
\<close>

definition task :: "('s, 'a) operation \<Rightarrow> ('s, 'a) task" where
  "task fn s =
     (case fn s of
        (Inr result, s') \<Rightarrow> (Resolved result, s')
      | (Inl err, s') \<Rightarrow> (Rejected err, s'))"

text \<open>
  What the environment contributes to one iteration of the loop in \<^verbatim>\<open>processQueue\<close>:
  the value of \<^verbatim>\<open>Math.random()\<close>; the deviation of the timer; the time the task takes to
  settle; and the operations passed to \<^verbatim>\<open>throttle\<close> while the loop is suspended in this
  iteration (their calls of \<^verbatim>\<open>processQueue\<close> return at once, since \<open>running\<close> is set).

  The program asks \<^verbatim>\<open>setTimeout\<close> for \<open>waitTime\<close> milliseconds and reads the clock again
  afterwards without comparing the two readings. A timer that is exact lets
  \<open>\<lceil>waitTime\<rceil>\<close> milliseconds pass on the clock; \<open>drift\<close> is the number of milliseconds by
  which the second reading is later than that, negative when the timer returns early. The
  clock itself does not go back.
\<close>

record ('s, 'a) tick =
  random :: real
  drift :: int
  busy :: nat
  arrivals :: "('s, 'a) operation list"

definition quiet :: "('s, 'a) tick" where
  "quiet = \<lparr>random = 0, drift = 0, busy = 0, arrivals = []\<rparr>"

text \<open>The environment is a list of ticks, one for each iteration; after its end it is quiet.\<close>

definition tickOf :: "('s, 'a) tick list \<Rightarrow> ('s, 'a) tick" where
  "tickOf env = (case env of [] \<Rightarrow> quiet | e # _ \<Rightarrow> e)"

text \<open>The record of one dispatch: the task, the value of \<open>lastRequestTime\<close> set for it, the
  time at which it settled and how it settled.\<close>

record ('s, 'a) dispatch =
  ran :: "('s, 'a) task"
  dispatchedAt :: int
  settledAt :: int
  settlement :: "'a settlement"

text \<open>
  One iteration of the \<^verbatim>\<open>while\<close> loop, for the task \<open>t\<close> at the head of the queue, begun
  when the clock shows \<open>now\<close>. It returns the record of the dispatch, the limiter, the
  world and the clock after the task has settled.
\<close>

definition dispatchNext ::
  "('s, 'a) tick \<Rightarrow> ('s, 'a) task \<Rightarrow> ('s, 'a) rateLimiter \<Rightarrow> 's \<Rightarrow> int \<Rightarrow>
     ('s, 'a) dispatch \<times> ('s, 'a) rateLimiter \<times> 's \<times> int" where
  "dispatchNext e t rl s now =
     (let timeSinceLastRequest = now - lastRequestTime rl;
          randomDelay = minDelay rl + random e * (maxDelay rl - minDelay rl);
          waitTime = max 0 (randomDelay - real_of_int timeSinceLastRequest);
          started = (if waitTime > 0 then max now (now + \<lceil>waitTime\<rceil> + drift e) else now);
          (r, s') = t s;
          finished = started + int (busy e)
      in (\<lparr>ran = t, dispatchedAt = started, settledAt = finished, settlement = r\<rparr>,
          rl\<lparr>queue := tl (queue rl) @ map task (arrivals e), lastRequestTime := started\<rparr>,
          s', finished))"

text \<open>
  The \<^verbatim>\<open>while (this.queue.length > 0)\<close> loop. It ends: once the environment is used up
  nothing arrives any more and each iteration shortens the queue.
\<close>

function dispatchLoop ::
  "('s, 'a) tick list \<Rightarrow> ('s, 'a) rateLimiter \<Rightarrow> 's \<Rightarrow> int \<Rightarrow>
     ('s, 'a) dispatch list \<times> ('s, 'a) rateLimiter \<times> 's \<times> int" where
  "dispatchLoop env rl s now =
     (case queue rl of
        [] \<Rightarrow> ([], rl, s, now)
      | t # rest \<Rightarrow>
          (case dispatchNext (tickOf env) t rl s now of
             (d, rl', s', now') \<Rightarrow>
               (case dispatchLoop (tl env) rl' s' now' of
                  (ds, out) \<Rightarrow> (d # ds, out))))"
  by pat_completeness auto
termination
proof (relation "measures [\<lambda>(env, rl, s, now). length env, \<lambda>(env, rl, s, now). length (queue rl)]",
    goal_cases)
  case 1
  then show ?case by simp
next
  case (2 env rl s now t rest d y rl' z s' now')
  then have "rl' = fst (snd (dispatchNext (tickOf env) t rl s now))"
    by (metis fst_conv snd_conv)
  then have "queue rl' = rest @ map task (arrivals (tickOf env))"
    using 2(1) by (simp add: dispatchNext_def Let_def split: prod.splits)
  then show ?case
    using 2(1) by (cases env) (simp_all add: tickOf_def quiet_def)
qed

declare dispatchLoop.simps [simp del]

text \<open>\<^verbatim>\<open>processQueue\<close>: nothing happens when an activation is already running or the queue
  is empty; otherwise the loop runs until the queue is empty.\<close>

definition processQueue ::
  "('s, 'a) tick list \<Rightarrow> ('s, 'a) rateLimiter \<Rightarrow> 's \<Rightarrow> int \<Rightarrow>
     ('s, 'a) dispatch list \<times> ('s, 'a) rateLimiter \<times> 's \<times> int" where
  "processQueue env rl s now =
     (if running rl \<or> length (queue rl) = 0 then ([], rl, s, now)
      else
        (case dispatchLoop env (rl\<lparr>running := True\<rparr>) s now of
           (ds, rl', out) \<Rightarrow> (ds, rl'\<lparr>running := False\<rparr>, out)))"

text \<open>\<^verbatim>\<open>throttle(fn)\<close>: the task of \<open>fn\<close> goes to the end of the queue, then
  \<^verbatim>\<open>processQueue\<close> is called.\<close>

definition throttle ::
  "('s, 'a) operation \<Rightarrow> ('s, 'a) tick list \<Rightarrow> ('s, 'a) rateLimiter \<Rightarrow> 's \<Rightarrow> int \<Rightarrow>
     ('s, 'a) dispatch list \<times> ('s, 'a) rateLimiter \<times> 's \<times> int" where
  "throttle fn env rl s now = processQueue env (rl\<lparr>queue := queue rl @ [task fn]\<rparr>) s now"

text \<open>The tasks of a list run one after the other on the world, without the limiter.\<close>

fun runAll :: "('s, 'a) task list \<Rightarrow> 's \<Rightarrow> 'a settlement list \<times> 's" where
  "runAll [] s = ([], s)"
| "runAll (t # ts) s =
     (case t s of (r, s') \<Rightarrow> (case runAll ts s' of (rs, s'') \<Rightarrow> (r # rs, s'')))"

text \<open>
  Concrete operations on a world that is the list of the numbers emitted so far, and
  concrete environments: three ticks with punctual timers; three ticks whose second timer
  returns one millisecond early; two ticks for a limiter built with the delays exchanged.
\<close>

definition emit :: "nat \<Rightarrow> (nat list, nat) operation" where
  "emit n s = (Inr n, s @ [n])"

definition failing :: "string \<Rightarrow> (nat list, nat) operation" where
  "failing m s = (Inl (Error m), s)"

definition ticks3 :: "(nat list, nat) tick list" where
  "ticks3 =
     [\<lparr>random = 1 / 2, drift = 3, busy = 40, arrivals = [emit 2, emit 3]\<rparr>,
      \<lparr>random = 0, drift = 0, busy = 10, arrivals = []\<rparr>,
      \<lparr>random = 1 / 3, drift = 1, busy = 5, arrivals = []\<rparr>]"

definition earlyTicks :: "(nat list, nat) tick list" where
  "earlyTicks =
     [\<lparr>random = 0, drift = 0, busy = 0, arrivals = [emit 2, emit 3]\<rparr>,
      \<lparr>random = 0, drift = - 1, busy = 0, arrivals = []\<rparr>,
      \<lparr>random = 0, drift = 0, busy = 0, arrivals = []\<rparr>]"

definition ticks2 :: "(nat list, nat) tick list" where
  "ticks2 =
     [\<lparr>random = 9 / 10, drift = 0, busy = 0, arrivals = [emit 2]\<rparr>,
      \<lparr>random = 9 / 10, drift = 0, busy = 0, arrivals = []\<rparr>]"

definition busyLimiter :: "(nat list, nat) rateLimiter" where
  "busyLimiter =
     \<lparr>queue = [task (emit 1), task (failing ''boom'')], running = False,
      minDelay = 1000, maxDelay = 2000, lastRequestTime = 4000\<rparr>"

section \<open>Writing the details of a game\<close>

text \<open>
  The weight that the extraction hands over is a JavaScript number or null. The extraction
  sets it with \<^verbatim>\<open>parseFloat\<close> whenever the page carries a text for it, and \<^verbatim>\<open>parseFloat\<close>
  of a text that is no number is \<^verbatim>\<open>NaN\<close>, which is a number and not null. The column of
  the store has no such value: a \<^verbatim>\<open>NaN\<close> written to it is saved as \<^verbatim>\<open>NULL\<close>. The two
  infinities, which \<^verbatim>\<open>parseFloat\<close> gives only for a text that spells them or overflows,
  are left out.
\<close>

datatype number = Num real | NaN

definition stored :: "number option \<Rightarrow> real option" where
  "stored v = (case v of None \<Rightarrow> None | Some NaN \<Rightarrow> None | Some (Num r) \<Rightarrow> Some r)"

text \<open>The argument of \<^verbatim>\<open>updateGameWithAllDetails\<close>.\<close>

record details =
  year :: "int option"
  minPlayers :: "int option"
  maxPlayers :: "int option"
  minPlayingTime :: "int option"
  maxPlayingTime :: "int option"
  weight :: "number option"
  officialAge :: "int option"
  languageDependenceText :: "string option"
  categories :: "string list"
  mechanisms :: "string list"
  families :: "string list"
  communityPlayerRatings :: "playerRating list"
  communityAgeRatings :: "ageRating list"

text \<open>
  Every call of the query layer can throw (the connection is lost, the database is locked, a
  value is refused). For one call of \<^verbatim>\<open>updateGameWithAllDetails\<close> the environment says
  which of its calls do: the upsert of a lookup row with a given text; the transaction of
  the second step, which is rolled back as a whole; the transaction of the third step,
  which is rolled back as a whole after the second step has been committed.
\<close>

record faults =
  lookupFault :: "string \<Rightarrow> error option"
  writeFault :: "error option"
  communityFault :: "error option"

definition noFaults :: faults where
  "noFaults = \<lparr>lookupFault = (\<lambda>_. None), writeFault = None, communityFault = None\<rparr>"

text \<open>
  \<^verbatim>\<open>upsert({ where: { text }, update: {}, create: { text } })\<close> on a lookup table: the row
  with this text, created with a fresh identifier when there is none.
\<close>

definition upsertByText :: "string \<Rightarrow> (string \<times> nat) list \<Rightarrow> nat \<times> (string \<times> nat) list" where
  "upsertByText text rows =
     (case map_of rows text of
        Some i \<Rightarrow> (i, rows)
      | None \<Rightarrow> (let i = Suc (fold max (map snd rows) 0) in (i, rows @ [(text, i)])))"

definition findOrCreateLanguageDependence :: "string \<Rightarrow> database \<Rightarrow> nat \<times> database" where
  "findOrCreateLanguageDependence text db =
     (case upsertByText text (languageDependence db) of
        (i, rows) \<Rightarrow> (i, db\<lparr>languageDependence := rows\<rparr>))"

definition findOrCreateCategory :: "string \<Rightarrow> database \<Rightarrow> nat \<times> database" where
  "findOrCreateCategory categoryName db =
     (case upsertByText categoryName (category db) of (i, rows) \<Rightarrow> (i, db\<lparr>category := rows\<rparr>))"

definition findOrCreateMechanism :: "string \<Rightarrow> database \<Rightarrow> nat \<times> database" where
  "findOrCreateMechanism mechanismName db =
     (case upsertByText mechanismName (mechanism db) of (i, rows) \<Rightarrow> (i, db\<lparr>mechanism := rows\<rparr>))"

definition findOrCreateFamily :: "string \<Rightarrow> database \<Rightarrow> nat \<times> database" where
  "findOrCreateFamily familyName db =
     (case upsertByText familyName (family db) of (i, rows) \<Rightarrow> (i, db\<lparr>family := rows\<rparr>))"

text \<open>
  The lookups of the first step are started together and awaited with \<^verbatim>\<open>Promise.all\<close>:
  every upsert that does not throw is carried out, also when another one throws. The texts
  looked up, in the order of the source, and the error with which the first step fails, if
  it does (the model takes the first in this order).
\<close>

definition lookupNames :: "details \<Rightarrow> string list" where
  "lookupNames d =
     (case languageDependenceText d of
        None \<Rightarrow> []
      | Some text \<Rightarrow> if text = [] then [] else [text])
     @ categories d @ mechanisms d @ families d"

fun firstFault :: "(string \<Rightarrow> error option) \<Rightarrow> string list \<Rightarrow> error option" where
  "firstFault broken [] = None"
| "firstFault broken (n # ns) =
     (case broken n of Some err \<Rightarrow> Some err | None \<Rightarrow> firstFault broken ns)"

fun lookupAll ::
  "(string \<Rightarrow> error option) \<Rightarrow> (string \<Rightarrow> database \<Rightarrow> nat \<times> database) \<Rightarrow>
     string list \<Rightarrow> database \<Rightarrow> nat list \<times> database" where
  "lookupAll broken findOrCreate [] db = ([], db)"
| "lookupAll broken findOrCreate (n # ns) db =
     (if broken n \<noteq> None then lookupAll broken findOrCreate ns db
      else
        (case findOrCreate n db of
           (i, db1) \<Rightarrow>
             (case lookupAll broken findOrCreate ns db1 of (ids, db2) \<Rightarrow> (i # ids, db2))))"

text \<open>The upserts of the link tables and of the community tables.\<close>

definition upsertLink :: "nat \<Rightarrow> nat \<Rightarrow> (nat \<times> nat) list \<Rightarrow> (nat \<times> nat) list" where
  "upsertLink gameId otherId rows =
     (if (gameId, otherId) \<in> set rows then rows else rows @ [(gameId, otherId)])"

definition upsertPlayerRating ::
  "nat \<Rightarrow> playerRating \<Rightarrow> (nat \<times> playerRating) list \<Rightarrow> (nat \<times> playerRating) list" where
  "upsertPlayerRating gameId rating rows =
     (if (gameId, playerCount rating) \<in> set (map (\<lambda>(g, r). (g, playerCount r)) rows)
      then map (\<lambda>(g, r). if g = gameId \<and> playerCount r = playerCount rating
                          then (g, rating) else (g, r)) rows
      else rows @ [(gameId, rating)])"

definition upsertAgeRating ::
  "nat \<Rightarrow> ageRating \<Rightarrow> (nat \<times> ageRating) list \<Rightarrow> (nat \<times> ageRating) list" where
  "upsertAgeRating gameId rating rows =
     (if (gameId, age rating) \<in> set (map (\<lambda>(g, r). (g, age r)) rows)
      then map (\<lambda>(g, r). if g = gameId \<and> age r = age rating then (g, rating) else (g, r)) rows
      else rows @ [(gameId, rating)])"

definition updateGameWithCommunityData ::
  "nat \<Rightarrow> playerRating list \<Rightarrow> ageRating list \<Rightarrow> database \<Rightarrow> database" where
  "updateGameWithCommunityData gameId playerRatings ageRatings db =
     db\<lparr>communityPlayerRating :=
           fold (upsertPlayerRating gameId) playerRatings (communityPlayerRating db),
        communityAgeRating :=
           fold (upsertAgeRating gameId) ageRatings (communityAgeRating db)\<rparr>"

text \<open>
  \<^verbatim>\<open>tx.game.update({ where: { id: gameId }, data })\<close>: it throws when no row has the
  identifier.
\<close>

definition updateGame :: "nat \<Rightarrow> (game \<Rightarrow> game) \<Rightarrow> database \<Rightarrow> error + database" where
  "updateGame gameId data db =
     (if gameId \<in> set (map game_id (game db))
      then Inr (db\<lparr>game := map (\<lambda>g. if game_id g = gameId then data g else g) (game db)\<rparr>)
      else Inl (Error ''Record to update not found''))"

text \<open>
  \<^verbatim>\<open>updateGameWithAllDetails(gameId, details)\<close>, at time \<open>now\<close> (the value of
  \<^verbatim>\<open>new Date()\<close> written to \<open>scrapedAt\<close>). Step 1 looks up the identifiers, outside any
  transaction. Step 2 is one transaction: it writes the columns of the game, the weight
  among them whatever it is, and upserts the links; when it throws, nothing of it is
  written. Step 3 writes the community data in a transaction of its own. The result is the
  error thrown, if any, and the store as the call leaves it.
\<close>

definition updateGameWithAllDetails ::
  "faults \<Rightarrow> nat \<Rightarrow> details \<Rightarrow> timestamp \<Rightarrow> database \<Rightarrow> error option \<times> database" where
  "updateGameWithAllDetails fs gameId d now db =
     (case (case languageDependenceText d of
              None \<Rightarrow> (None, db)
            | Some text \<Rightarrow>
                if text = [] \<or> lookupFault fs text \<noteq> None then (None, db)
                else (case findOrCreateLanguageDependence text db of (i, db') \<Rightarrow> (Some i, db'))) of
        (languageDependenceId', db1) \<Rightarrow>
     (case lookupAll (lookupFault fs) findOrCreateCategory (categories d) db1 of (categoryIds, db2) \<Rightarrow>
     (case lookupAll (lookupFault fs) findOrCreateMechanism (mechanisms d) db2 of (mechanismIds, db3) \<Rightarrow>
     (case lookupAll (lookupFault fs) findOrCreateFamily (families d) db3 of (familyIds, db4) \<Rightarrow>
     (case firstFault (lookupFault fs) (lookupNames d) of
        Some err \<Rightarrow> (Some err, db4)
      | None \<Rightarrow>
     (case writeFault fs of
        Some err \<Rightarrow> (Some err, db4)
      | None \<Rightarrow>
     (case updateGame gameId
             (\<lambda>g. g\<lparr>game.year := details.year d,
                     game.minPlayers := details.minPlayers d,
                     game.maxPlayers := details.maxPlayers d,
                     game.minPlayingTime := details.minPlayingTime d,
                     game.maxPlayingTime := details.maxPlayingTime d,
                     game.weight := stored (details.weight d),
                     game.officialAge := details.officialAge d,
                     languageDependenceId := languageDependenceId',
                     scrapedAt := now\<rparr>) db4 of
        Inl err \<Rightarrow> (Some err, db4)
      | Inr db5 \<Rightarrow>
          (let db6 = db5\<lparr>gameCategory := fold (upsertLink gameId) categoryIds (gameCategory db5),
                         gameMechanism := fold (upsertLink gameId) mechanismIds (gameMechanism db5),
                         gameFamily := fold (upsertLink gameId) familyIds (gameFamily db5)\<rparr>
           in (case communityFault fs of
                 Some err \<Rightarrow> (Some err, db6)
               | None \<Rightarrow>
                   (None,
                    updateGameWithCommunityData gameId (communityPlayerRatings d)
                      (communityAgeRatings d) db6))))))))))"

text \<open>
  The second step of the call is committed: no lookup throws, the transaction does not
  throw, and the row exists.
\<close>

definition commits :: "faults \<Rightarrow> nat \<Rightarrow> details \<Rightarrow> database \<Rightarrow> bool" where
  "commits fs gameId d db \<longleftrightarrow>
     firstFault (lookupFault fs) (lookupNames d) = None \<and> writeFault fs = None \<and>
     gameId \<in> set (map game_id (game db))"

text \<open>The tables that the claim reads are the same in both states.\<close>

definition sameBacklog :: "database \<Rightarrow> database \<Rightarrow> bool" where
  "sameBacklog db db' \<longleftrightarrow>
     game db' = game db \<and> gameCategory db' = gameCategory db \<and>
     gameMechanism db' = gameMechanism db \<and> gameFamily db' = gameFamily db"

text \<open>
  Concrete inputs: the details of a page from which nothing could be read, and a store with
  one complete game (a weight and a category link).
\<close>

definition nothingExtracted :: details where
  "nothingExtracted =
     \<lparr>year = None, minPlayers = None, maxPlayers = None, minPlayingTime = None,
      maxPlayingTime = None, weight = None, officialAge = None, languageDependenceText = None,
      categories = [], mechanisms = [], families = [],
      communityPlayerRatings = [], communityAgeRatings = []\<rparr>"

definition completeBacklog :: database where
  "completeBacklog = mkDb [mkGame 4 (Some 2.5) None None] [(4, 7)]"

section \<open>The worker loop\<close>

text \<open>
  \<^verbatim>\<open>DetailScraper.scrapeGameDetails\<close>. The browser is outside the model: what the pages
  of a game give is the function \<open>extractor\<close>, the details read or the error thrown on the
  way (navigation, login, evaluation of the page). What the store does to the calls that
  persist the details of a game is the function \<open>storeFaults\<close>. The calls of the coordinator
  (release, claim, \<^verbatim>\<open>findById\<close>) are taken to return: a throw of one of them leaves the
  loops through the outer \<^verbatim>\<open>catch\<close>, which is not the path of a failing item.
\<close>

datatype logEntry =
    StartingWorker string
  | BatchStarted nat nat
  | Completed string nat string
  | FailedToScrape string string error
  | NoMoreGames string
  | WorkerCompleted string nat
  | GameNotFound nat
  | WorkerError string error

record scraper =
  workerId :: string
  batchSize :: nat
  extractor :: "game_pick \<Rightarrow> error + details"
  storeFaults :: "game_pick \<Rightarrow> faults"

text \<open>
  The state of a worker: the store, its rate limiter, the clock, what the environment will
  contribute to the coming dispatches (random value, drift of the timer, duration), the
  two counters of the loop and the lines logged so far.
\<close>

record worker =
  gameRepository :: database
  rateLimiter :: "(database, unit) rateLimiter"
  clock :: int
  pacing :: "(real \<times> int \<times> nat) list"
  totalProcessed :: nat
  batchCount :: nat
  logger :: "logEntry list"

text \<open>
  \<^verbatim>\<open>scrapeGameDetailPage(game)\<close>: everything up to the update is extraction; the update is
  \<^verbatim>\<open>updateGameWithAllDetails\<close>; the \<^verbatim>\<open>catch\<close> logs and throws the error again.
\<close>

definition scrapeGameDetailPage ::
  "scraper \<Rightarrow> timestamp \<Rightarrow> game_pick \<Rightarrow> (database, unit) operation" where
  "scrapeGameDetailPage sc now g db =
     (case extractor sc g of
        Inl err \<Rightarrow> (Inl err, db)
      | Inr gameDetails \<Rightarrow>
          (case updateGameWithAllDetails (storeFaults sc g) (game_id g) gameDetails now db of
             (Some err, db') \<Rightarrow> (Inl err, db')
           | (None, db') \<Rightarrow> (Inr (), db')))"

definition paceOf :: "(real \<times> int \<times> nat) list \<Rightarrow> (database, unit) tick list" where
  "paceOf ps =
     (case ps of
        [] \<Rightarrow> []
      | (r, l, b) # _ \<Rightarrow> [\<lparr>random = r, drift = l, busy = b, arrivals = []\<rparr>])"

text \<open>
  The \<^verbatim>\<open>for\<close> loop over a batch. Each item is passed to \<^verbatim>\<open>throttle\<close> and awaited; the
  \<^verbatim>\<open>try\<close> counts and logs a success, the \<^verbatim>\<open>catch\<close> logs the failure and does nothing
  else. The time that the update writes to \<open>scrapedAt\<close> is the one at which the item is
  passed to \<^verbatim>\<open>throttle\<close>. The loop \<^verbatim>\<open>while (true)\<close> claims and works batches, with a pause of one second
  after each, until a claim returns nothing; it need not end, and is a partial function.
  \<^verbatim>\<open>scrapeGameDetails\<close> releases the leases of the worker, runs the single-game mode or the
  loop, and releases the leases of the worker again in its \<^verbatim>\<open>finally\<close> block; its result
  is the error it throws, if any, and the final state.
\<close>

fun processBatch :: "scraper \<Rightarrow> game_pick list \<Rightarrow> worker \<Rightarrow> worker" where
  "processBatch sc [] st = st"
| "processBatch sc (g # gs) st =
     (case throttle (scrapeGameDetailPage sc (clock st) g) (paceOf (pacing st))
             (rateLimiter st) (gameRepository st) (clock st) of
        (ds, rl', db', now') \<Rightarrow>
          (case ds of
             [] \<Rightarrow> st
           | d # _ \<Rightarrow>
               (case settlement d of
                  Resolved _ \<Rightarrow>
                    processBatch sc gs
                      (st\<lparr>gameRepository := db', rateLimiter := rl', clock := now',
                          pacing := tl (pacing st),
                          totalProcessed := totalProcessed st + 1,
                          logger := logger st
                            @ [Completed (workerId sc) (totalProcessed st + 1) (name g)]\<rparr>)
                | Rejected err \<Rightarrow>
                    processBatch sc gs
                      (st\<lparr>gameRepository := db', rateLimiter := rl', clock := now',
                          pacing := tl (pacing st),
                          logger := logger st @ [FailedToScrape (workerId sc) (name g) err]\<rparr>))))"

partial_function (option) workLoop :: "scraper \<Rightarrow> worker \<Rightarrow> worker option" where
  "workLoop sc st =
     (case claimGamesForProcessing (workerId sc) (batchSize sc) (clock st) (gameRepository st) of
        (gamesToScrape, db') \<Rightarrow>
          if length gamesToScrape = 0
          then Some (st\<lparr>gameRepository := db', logger := logger st @ [NoMoreGames (workerId sc)]\<rparr>)
          else
            (let st' = processBatch sc gamesToScrape
                         (st\<lparr>gameRepository := db', batchCount := batchCount st + 1,
                             logger := logger st
                               @ [BatchStarted (batchCount st + 1) (length gamesToScrape)]\<rparr>)
             in workLoop sc (st'\<lparr>clock := clock st' + 1000\<rparr>)))"

definition findById :: "nat \<Rightarrow> database \<Rightarrow> game_pick option" where
  "findById i db = map_option game_pick.truncate (find (\<lambda>g. game_id g = i) (game db))"

definition scrapeGameDetails ::
  "scraper \<Rightarrow> nat option \<Rightarrow> worker \<Rightarrow> (error option \<times> worker) option" where
  "scrapeGameDetails sc gameId st =
     (let st1 = st\<lparr>gameRepository := releaseClaimedGames (workerId sc) (gameRepository st)\<rparr>;
          body =
            (case (case gameId of None \<Rightarrow> None | Some i \<Rightarrow> if i = 0 then None else Some i) of
               Some i \<Rightarrow>
                 (case findById i (gameRepository st1) of
                    None \<Rightarrow> Some (None, st1\<lparr>logger := logger st1 @ [GameNotFound i]\<rparr>)
                  | Some g \<Rightarrow>
                      (case scrapeGameDetailPage sc (clock st1) g (gameRepository st1) of
                         (Inl err, db') \<Rightarrow> Some (Some err, st1\<lparr>gameRepository := db'\<rparr>)
                       | (Inr _, db') \<Rightarrow> Some (None, st1\<lparr>gameRepository := db'\<rparr>)))
             | None \<Rightarrow>
                 (case workLoop sc (st1\<lparr>logger := logger st1 @ [StartingWorker (workerId sc)]\<rparr>) of
                    None \<Rightarrow> None
                  | Some st2 \<Rightarrow>
                      Some (None,
                            st2\<lparr>logger := logger st2
                                  @ [WorkerCompleted (workerId sc) (totalProcessed st2)]\<rparr>)))
      in case body of
           None \<Rightarrow> None
         | Some (thrown, st3) \<Rightarrow>
             (let st4 = (case thrown of
                           None \<Rightarrow> st3
                         | Some err \<Rightarrow> st3\<lparr>logger := logger st3 @ [WorkerError (workerId sc) err]\<rparr>)
              in Some (thrown,
                       st4\<lparr>gameRepository :=
                              releaseClaimedGames (workerId sc) (gameRepository st4)\<rparr>)))"

text \<open>The scraper of the repository: the rate limiter of \<^verbatim>\<open>DetailScraper\<close> has the delays
  2000 and 3000.\<close>

definition newWorker :: "database \<Rightarrow> int \<Rightarrow> (real \<times> int \<times> nat) list \<Rightarrow> worker" where
  "newWorker db now ps =
     \<lparr>gameRepository = db, rateLimiter = newRateLimiter 2000 3000, clock = now, pacing = ps,
      totalProcessed = 0, batchCount = 0, logger = []\<rparr>"

subsection \<open>Notions used in the statements\<close>

text \<open>The rate limiter of the worker is at rest: nothing is queued and no activation runs.\<close>

definition idle :: "worker \<Rightarrow> bool" where
  "idle st \<longleftrightarrow> queue (rateLimiter st) = [] \<and> \<not> running (rateLimiter st)"

text \<open>
  The body of the \<^verbatim>\<open>for\<close> loop without the rate limiter: the items are attempted one
  after the other, each at its time, on the store the previous attempt left; a success
  increases the counter and logs a completion, a failure logs its error.
\<close>

definition counted :: "nat \<Rightarrow> error + unit \<Rightarrow> nat" where
  "counted sofar res = (case res of Inl err \<Rightarrow> sofar | Inr u \<Rightarrow> sofar + 1)"

definition entryOf :: "scraper \<Rightarrow> game_pick \<Rightarrow> nat \<Rightarrow> error + unit \<Rightarrow> logEntry" where
  "entryOf sc g sofar res =
     (case res of
        Inl err \<Rightarrow> FailedToScrape (workerId sc) (name g) err
      | Inr u \<Rightarrow> Completed (workerId sc) (sofar + 1) (name g))"

fun attemptsInOrder ::
  "scraper \<Rightarrow> (game_pick \<times> timestamp) list \<Rightarrow> database \<Rightarrow> nat \<Rightarrow>
     logEntry list \<times> database \<times> nat" where
  "attemptsInOrder sc [] db sofar = ([], db, sofar)"
| "attemptsInOrder sc ((g, t) # rest) db sofar =
     (case scrapeGameDetailPage sc t g db of
        (res, db') \<Rightarrow>
          (case attemptsInOrder sc rest db' (counted sofar res) of
             (entries, out) \<Rightarrow> (entryOf sc g sofar res # entries, out)))"

text \<open>
  The attempt for an item gets as far as committing the second step of the update: the
  extraction succeeds, no lookup throws and the transaction does not throw.
\<close>

definition mayCommit :: "scraper \<Rightarrow> game_pick \<Rightarrow> bool" where
  "mayCommit sc p \<longleftrightarrow>
     (case extractor sc p of
        Inl err \<Rightarrow> False
      | Inr d \<Rightarrow>
          firstFault (lookupFault (storeFaults sc p)) (lookupNames d) = None \<and>
          writeFault (storeFaults sc p) = None)"

text \<open>The number of rows without a lease; it decreases with every claim that returns items.\<close>

definition unleased :: "database \<Rightarrow> nat" where
  "unleased db = length (filter (\<lambda>g. processingBy g = None) (game db))"

text \<open>
  What the loop of worker \<open>sc\<close> can do to the store: the rows and their selected columns
  stay; a lease stays or passes from nobody to this worker; a row whose attempt cannot
  commit is as pending as before.
\<close>

definition progressed :: "scraper \<Rightarrow> database \<Rightarrow> database \<Rightarrow> bool" where
  "progressed sc db db' \<longleftrightarrow>
     map game_id (game db') = map game_id (game db) \<and>
     map game_pick.truncate (game db') = map game_pick.truncate (game db) \<and>
     (\<forall>k < length (game db).
        processingBy (game db' ! k) = processingBy (game db ! k) \<or>
        processingBy (game db ! k) = None \<and> processingBy (game db' ! k) = Some (workerId sc)) \<and>
     (\<forall>k < length (game db).
        \<not> mayCommit sc (game_pick.truncate (game db ! k)) \<longrightarrow>
        withoutDetails db' (game db' ! k) = withoutDetails db (game db ! k))"

text \<open>
  Two scrapers for worker-1. For the first the pages of game 3 cannot be opened; every
  other game gives a weight and a category, and the store takes them. For the second every
  game gives a weight and a category, and the store loses the connection in the third step
  of each update.
\<close>

definition flaky :: scraper where
  "flaky =
     \<lparr>workerId = ''worker-1'', batchSize = 5,
      extractor = (\<lambda>p. if game_id p = 3 then Inl (Error ''navigation timeout'')
                       else Inr (nothingExtracted\<lparr>weight := Some (Num 2), categories := [''Strategy'']\<rparr>)),
      storeFaults = (\<lambda>p. noFaults)\<rparr>"

definition interrupted :: scraper where
  "interrupted =
     \<lparr>workerId = ''worker-1'', batchSize = 5,
      extractor = (\<lambda>p. Inr (nothingExtracted\<lparr>weight := Some (Num 2), categories := [''Strategy'']\<rparr>)),
      storeFaults = (\<lambda>p. noFaults\<lparr>communityFault := Some (Error ''connection lost'')\<rparr>)\<rparr>"

section \<open>The launcher\<close>

text \<open>
  \<^verbatim>\<open>runParallelScrapers\<close>, after the arguments have been read: \<open>numWorkers\<close> is the number
  of workers and \<open>singleProcess\<close> the flag of the command line. The sweep of the leases
  either throws the error \<open>fault\<close> (the repository cannot be built, or the store refuses
  the statement, which then writes nothing) or is \<open>releaseAllClaimedGames\<close>. Then the
  workers \<^verbatim>\<open>worker-1\<close>, ..., \<^verbatim>\<open>worker-n\<close> are started, in the same process or each in a
  process of its own. What a worker does is not part of this model, only the code with
  which it exits (\<open>exits\<close>; in the same process, 0 when its promise resolves). The result
  holds the lines the launcher writes to the console, without their pictograms and with
  those of the exit handlers in the order of the worker numbers, the workers started, the
  store as the workers find it, and the exit code of the launcher.
\<close>

datatype console = Out string | Err string | ErrWith string error

text \<open>The decimal numeral of a number, as template strings print it.\<close>

fun decimal :: "nat \<Rightarrow> string" where
  "decimal n =
     (if n < 10 then [''0123456789'' ! n]
      else decimal (n div 10) @ [''0123456789'' ! (n mod 10)])"

declare decimal.simps [simp del]

record launch =
  console :: "console list"
  started :: "string list"
  store :: database
  exitCode :: nat

definition workerIds :: "nat \<Rightarrow> string list" where
  "workerIds numWorkers = map (\<lambda>i. ''worker-'' @ decimal i) [1 ..< Suc numWorkers]"

definition runParallelScrapers ::
  "nat \<Rightarrow> bool \<Rightarrow> error option \<Rightarrow> (string \<Rightarrow> nat) \<Rightarrow> database \<Rightarrow> launch" where
  "runParallelScrapers numWorkers singleProcess fault exits db =
     (let banner = [Out (''Starting '' @ decimal numWorkers @ '' parallel detail scrapers...''),
                    Out ''Releasing all claimed games from previous runs...''];
          (cleanup, db') =
            (case (case fault of
                     Some err \<Rightarrow> Inl err
                   | None \<Rightarrow> Inr (releaseAllClaimedGames db)) of
               Inr (released, db') \<Rightarrow>
                 ([Out (''Released '' @ decimal released @ '' previously claimed games'')], db')
             | Inl err \<Rightarrow>
                 ([ErrWith ''Failed to release claimed games:'' err, Out ''Continuing anyway...''], db));
          workers = workerIds numWorkers;
          spawned = (if singleProcess then []
                     else map (\<lambda>workerId. Out (''Starting worker '' @ workerId @ ''...'')) workers
                          @ map (\<lambda>workerId.
                                   if exits workerId = 0
                                   then Out (''Worker '' @ workerId @ '' completed successfully'')
                                   else Err (''Worker '' @ workerId @ '' failed with code ''
                                             @ decimal (exits workerId))) workers)
      in if list_all (\<lambda>workerId. exits workerId = 0) workers
         then \<lparr>console = banner @ cleanup @ spawned @ [Out ''All workers completed successfully!''],
               started = workers, store = db', exitCode = 0\<rparr>
         else \<lparr>console = banner @ cleanup @ spawned @ [Err ''Some workers failed:''],
               started = workers, store = db', exitCode = 1\<rparr>)"

chapter \<open>The properties\<close>

section \<open>Releasing leases\<close>

lemmas backlog0_simps = backlog0_def mkDb_def mkGame_def

lemma game_updateMany:
  "game (snd (updateMany wh data db)) = map (\<lambda>g. if wh g then data g else g) (game db)"
  by (simp add: updateMany_def)

lemma updateMany_only_game:
  "snd (updateMany wh data db) = db\<lparr>game := game (snd (updateMany wh data db))\<rparr>"
  by (simp add: updateMany_def)

lemma updateMany_no_match:
  assumes "\<forall>g \<in> set (game db). \<not> wh g"
  shows "snd (updateMany wh data db) = db"
proof -
  have "map (\<lambda>g. if wh g then data g else g) (game db) = game db"
    using assms by (simp add: map_idI)
  then show ?thesis
    by (simp add: updateMany_def)
qed

lemma game_releaseClaimedGames:
  "game (releaseClaimedGames w db) =
     map (\<lambda>g. if processingBy g = Some w
               then g\<lparr>processingBy := None, processingAt := None\<rparr> else g) (game db)"
  by (simp add: releaseClaimedGames_def game_updateMany)

lemma releaseClaimedGames_none_left:
  "\<forall>g \<in> set (game (releaseClaimedGames w db)). processingBy g \<noteq> Some w"
  by (auto simp: game_releaseClaimedGames)

text \<open>
  C9. \<open>releaseClaimedGames w\<close> clears both lease columns of exactly the rows leased by
  \<open>w\<close> and leaves every other row, every other column and every other table as it was;
  running it a second time changes nothing more; when \<open>w\<close> holds no lease it changes
  nothing at all.
\<close>

theorem releaseClaimedGames_exact:
  "length (game (releaseClaimedGames w db)) = length (game db) \<and>
   (\<forall>i < length (game db).
      game (releaseClaimedGames w db) ! i =
        (if processingBy (game db ! i) = Some w
         then (game db ! i)\<lparr>processingBy := None, processingAt := None\<rparr>
         else game db ! i)) \<and>
   releaseClaimedGames w db = db\<lparr>game := game (releaseClaimedGames w db)\<rparr> \<and>
   releaseClaimedGames w (releaseClaimedGames w db) = releaseClaimedGames w db \<and>
   ((\<forall>g \<in> set (game db). processingBy g \<noteq> Some w) \<longrightarrow> releaseClaimedGames w db = db)"
proof -
  have noop: "releaseClaimedGames w d = d" if "\<forall>g \<in> set (game d). processingBy g \<noteq> Some w" for d
    unfolding releaseClaimedGames_def using that by (intro updateMany_no_match) simp
  have idem: "releaseClaimedGames w (releaseClaimedGames w db) = releaseClaimedGames w db"
    by (rule noop) (rule releaseClaimedGames_none_left)
  have tables: "releaseClaimedGames w db = db\<lparr>game := game (releaseClaimedGames w db)\<rparr>"
    unfolding releaseClaimedGames_def by (rule updateMany_only_game)
  have len: "length (game (releaseClaimedGames w db)) = length (game db)"
    by (simp add: game_releaseClaimedGames)
  have nth: "\<forall>i < length (game db).
      game (releaseClaimedGames w db) ! i =
        (if processingBy (game db ! i) = Some w
         then (game db ! i)\<lparr>processingBy := None, processingAt := None\<rparr>
         else game db ! i)"
    by (simp add: game_releaseClaimedGames)
  from len nth tables idem noop show ?thesis
    by blast
qed

text \<open>
  On the backlog of five items: the release by worker-1 clears the lease of item 5 and
  leaves the lease of worker-2 on item 1; a second release changes nothing; worker-3 holds
  no lease and its release changes nothing.
\<close>

theorem releaseClaimedGames_exact_witness:
  "map processingBy (game (releaseClaimedGames ''worker-1'' backlog0)) =
     [None, Some ''worker-2'', None, None, None] \<and>
   map processingAt (game (releaseClaimedGames ''worker-1'' backlog0)) =
     [None, Some 5, None, None, None] \<and>
   releaseClaimedGames ''worker-1'' (releaseClaimedGames ''worker-1'' backlog0) =
     releaseClaimedGames ''worker-1'' backlog0 \<and>
   releaseClaimedGames ''worker-3'' backlog0 = backlog0"
proof -
  have rows: "map processingBy (game (releaseClaimedGames ''worker-1'' backlog0)) =
       [None, Some ''worker-2'', None, None, None]"
     "map processingAt (game (releaseClaimedGames ''worker-1'' backlog0)) =
       [None, Some 5, None, None, None]"
    by (simp_all add: game_releaseClaimedGames backlog0_simps)
  have none: "\<forall>g \<in> set (game backlog0). processingBy g \<noteq> Some ''worker-3''"
    by (simp add: backlog0_simps)
  from rows none releaseClaimedGames_exact [of "''worker-1''" backlog0]
    releaseClaimedGames_exact [of "''worker-3''" backlog0]
  show ?thesis
    by blast
qed

lemma withoutDetails_cong:
  assumes "game.weight g' = game.weight g" and "game_id g' = game_id g"
    and "gameCategory db' = gameCategory db" and "gameMechanism db' = gameMechanism db"
    and "gameFamily db' = gameFamily db"
  shows "withoutDetails db' g' = withoutDetails db g"
  using assms by (simp add: withoutDetails_def)

lemma game_releaseAllClaimedGames:
  "game (snd (releaseAllClaimedGames db)) =
     map (\<lambda>g. if processingBy g \<noteq> None
               then g\<lparr>processingBy := None, processingAt := None\<rparr> else g) (game db)"
  by (simp add: releaseAllClaimedGames_def game_updateMany)

lemma links_updateMany:
  "gameCategory (snd (updateMany wh data db)) = gameCategory db"
  "gameMechanism (snd (updateMany wh data db)) = gameMechanism db"
  "gameFamily (snd (updateMany wh data db)) = gameFamily db"
  by (simp_all add: updateMany_def)

text \<open>
  C8, as stated, says that the sweep makes exactly the swept items claimable again. The
  sweep clears the lease of a complete item as well (a worker that stored the details and
  stopped before releasing leaves one), counts it, and the item is not claimable afterwards:
  the claim selects pending items only.
\<close>

theorem swept_complete_item_not_claimable:
  "map processingBy (game stale) = [Some ''worker-1'', Some ''worker-2''] \<and>
   fst (releaseAllClaimedGames stale) = 2 \<and>
   map processingBy (game (snd (releaseAllClaimedGames stale))) = [None, None] \<and>
   map (available (snd (releaseAllClaimedGames stale))) (game (snd (releaseAllClaimedGames stale)))
     = [False, True] \<and>
   map game_id (fst (claimGamesForProcessing ''worker-3'' 5 100 (snd (releaseAllClaimedGames stale))))
     = [7]"
proof -
  have rows: "game (snd (releaseAllClaimedGames stale)) = [mkGame 6 (Some 2) None None, mkGame 7 None None None]"
    by (simp add: game_releaseAllClaimedGames stale_def mkDb_def mkGame_def)
  have links: "gameCategory (snd (releaseAllClaimedGames stale)) = [(6, 7)]"
    by (simp add: releaseAllClaimedGames_def links_updateMany) (simp add: stale_def mkDb_def)
  have av: "filter (available (snd (releaseAllClaimedGames stale))) (game (snd (releaseAllClaimedGames stale)))
      = [mkGame 7 None None None]"
    "map (available (snd (releaseAllClaimedGames stale))) (game (snd (releaseAllClaimedGames stale)))
      = [False, True]"
    by (simp_all add: rows available_def withoutDetails_def links) (simp_all add: mkGame_def)
  have claim: "map game_id (fst (claimGamesForProcessing ''worker-3'' 5 100 (snd (releaseAllClaimedGames stale))))
     = [7]"
    by (simp add: claimGamesForProcessing_def Let_def av game_pick.truncate_def) (simp add: mkGame_def)
  have before: "map processingBy (game stale) = [Some ''worker-1'', Some ''worker-2'']"
    by (simp add: stale_def mkDb_def mkGame_def)
  have cnt: "fst (releaseAllClaimedGames stale) = 2"
    by (simp add: releaseAllClaimedGames_def updateMany_def stale_def mkDb_def mkGame_def)
  have after: "map processingBy (game (snd (releaseAllClaimedGames stale))) = [None, None]"
    by (simp add: rows mkGame_def)
  from before cnt after av(2) claim show ?thesis
    by simp
qed

text \<open>
  C8, amended. \<open>releaseAllClaimedGames\<close> clears both lease columns of every row that has a
  lease owner, whoever the owner is, returns the number of those rows, and leaves every
  other row, every other column and every other table as it was. Afterwards no row is
  leased, so a row is claimable exactly when it is pending: of the swept items, the pending
  ones are claimable again and the complete ones are not.
\<close>

theorem releaseAllClaimedGames_exact:
  "fst (releaseAllClaimedGames db) = length (filter (\<lambda>g. processingBy g \<noteq> None) (game db)) \<and>
   length (game (snd (releaseAllClaimedGames db))) = length (game db) \<and>
   (\<forall>i < length (game db).
      game (snd (releaseAllClaimedGames db)) ! i =
        (if processingBy (game db ! i) \<noteq> None
         then (game db ! i)\<lparr>processingBy := None, processingAt := None\<rparr>
         else game db ! i)) \<and>
   snd (releaseAllClaimedGames db) = db\<lparr>game := game (snd (releaseAllClaimedGames db))\<rparr> \<and>
   (\<forall>g \<in> set (game (snd (releaseAllClaimedGames db))). processingBy g = None) \<and>
   (\<forall>i < length (game db).
      available (snd (releaseAllClaimedGames db)) (game (snd (releaseAllClaimedGames db)) ! i)
        = withoutDetails db (game db ! i))"
proof -
  let ?db' = "snd (releaseAllClaimedGames db)"
  have cnt: "fst (releaseAllClaimedGames db) = length (filter (\<lambda>g. processingBy g \<noteq> None) (game db))"
    by (simp add: releaseAllClaimedGames_def updateMany_def)
  have len: "length (game ?db') = length (game db)"
    by (simp add: game_releaseAllClaimedGames)
  have nth: "\<forall>i < length (game db).
      game ?db' ! i =
        (if processingBy (game db ! i) \<noteq> None
         then (game db ! i)\<lparr>processingBy := None, processingAt := None\<rparr>
         else game db ! i)"
    by (simp add: game_releaseAllClaimedGames)
  have tables: "?db' = db\<lparr>game := game ?db'\<rparr>"
    unfolding releaseAllClaimedGames_def by (rule updateMany_only_game)
  have unleased: "\<forall>g \<in> set (game ?db'). processingBy g = None"
    by (auto simp: game_releaseAllClaimedGames)
  have avail: "available ?db' (game ?db' ! i) = withoutDetails db (game db ! i)"
    if i: "i < length (game db)" for i
  proof -
    have row: "game ?db' ! i =
        (if processingBy (game db ! i) \<noteq> None
         then (game db ! i)\<lparr>processingBy := None, processingAt := None\<rparr>
         else game db ! i)"
      using nth i by blast
    have free: "processingBy (game ?db' ! i) = None"
      by (simp add: row)
    have same: "game.weight (game ?db' ! i) = game.weight (game db ! i)"
               "game_id (game ?db' ! i) = game_id (game db ! i)"
      by (simp_all add: row)
    have "withoutDetails ?db' (game ?db' ! i) = withoutDetails db (game db ! i)"
      using same by (intro withoutDetails_cong) (simp_all add: releaseAllClaimedGames_def links_updateMany)
    with free show ?thesis
      by (simp add: available_def)
  qed
  from cnt len nth tables unleased avail show ?thesis
    by blast
qed

text \<open>
  The sweep on the backlog of five items, two of them leased: it counts two, clears every
  lease, and the pending items (all but item 2) are claimable.
\<close>

theorem releaseAllClaimedGames_exact_witness:
  "fst (releaseAllClaimedGames backlog0) = 2 \<and>
   map processingBy (game (snd (releaseAllClaimedGames backlog0))) = [None, None, None, None, None] \<and>
   map processingAt (game (snd (releaseAllClaimedGames backlog0))) = [None, None, None, None, None] \<and>
   map (available (snd (releaseAllClaimedGames backlog0))) (game (snd (releaseAllClaimedGames backlog0)))
     = [True, True, False, True, True]"
proof -
  have pend: "map (withoutDetails backlog0) (game backlog0) = [True, True, False, True, True]"
    by (simp add: backlog0_simps withoutDetails_def)
  have len: "length (game backlog0) = 5"
    by (simp add: backlog0_simps)
  have lensnd: "length (game (snd (releaseAllClaimedGames backlog0))) = 5"
    by (simp add: game_releaseAllClaimedGames len)
  have cnt: "length (filter (\<lambda>g. processingBy g \<noteq> None) (game backlog0)) = 2"
    by (simp add: backlog0_simps)
  have rows: "map processingBy (game (snd (releaseAllClaimedGames backlog0))) = [None, None, None, None, None]"
     "map processingAt (game (snd (releaseAllClaimedGames backlog0))) = [None, None, None, None, None]"
    by (simp_all add: game_releaseAllClaimedGames backlog0_simps)
  have av: "\<forall>i < length (game backlog0).
      available (snd (releaseAllClaimedGames backlog0)) (game (snd (releaseAllClaimedGames backlog0)) ! i)
        = withoutDetails backlog0 (game backlog0 ! i)"
    using releaseAllClaimedGames_exact [of backlog0] by blast
  have "map (available (snd (releaseAllClaimedGames backlog0))) (game (snd (releaseAllClaimedGames backlog0)))
     = map (withoutDetails backlog0) (game backlog0)"
    using av by (intro nth_equalityI) (simp_all add: len lensnd)
  with pend cnt rows releaseAllClaimedGames_exact [of backlog0] show ?thesis
    by simp
qed

section \<open>Claiming a batch\<close>

lemma game_id_truncate: "game_id (game_pick.truncate g) = game_id g"
  by (simp add: game_pick.truncate_def)

lemma claim_batch:
  "fst (claimGamesForProcessing w n now db) =
     map game_pick.truncate (take n (sort_key game_id (filter (available db) (game db))))"
  by (simp add: claimGamesForProcessing_def Let_def)

lemma claim_rows:
  "game (snd (claimGamesForProcessing w n now db)) =
     map (\<lambda>g. if game_id g \<in> set (map game_id (fst (claimGamesForProcessing w n now db)))
               then g\<lparr>processingBy := Some w, processingAt := Some now\<rparr> else g) (game db)"
  by (simp add: claimGamesForProcessing_def Let_def game_updateMany game_id_truncate image_image)

lemma claim_only_game:
  "snd (claimGamesForProcessing w n now db) =
     db\<lparr>game := game (snd (claimGamesForProcessing w n now db))\<rparr>"
  by (simp add: claimGamesForProcessing_def Let_def updateMany_def)

lemma ids_sorted_selection:
  assumes "distinct (map game_id gs)"
  shows "sorted_wrt (<) (map game_id (take n (sort_key game_id (filter P gs))))"
proof -
  let ?S = "sort_key game_id (filter P gs)"
  have d: "distinct (map game_id (filter P gs))"
    using assms by (rule distinct_map_filter)
  then have "distinct (map game_id ?S)"
    by (simp add: distinct_map)
  moreover have "sorted (map game_id ?S)"
    by (rule sorted_sort_key)
  ultimately have "sorted_wrt (<) (map game_id ?S)"
    by (simp add: strict_sorted_iff)
  then have "sorted_wrt (<) (take n (map game_id ?S))"
    by (rule sorted_wrt_take)
  then show ?thesis
    by (simp add: take_map)
qed

lemma selection_smallest:
  assumes "g \<in> set (filter P gs)"
    and "game_id g \<notin> set (map game_id (take n (sort_key game_id (filter P gs))))"
    and "s \<in> set (take n (sort_key game_id (filter P gs)))"
  shows "game_id s < game_id g"
proof -
  let ?S = "sort_key game_id (filter P gs)"
  have "set ?S = set (take n ?S) \<union> set (drop n ?S)"
    by (metis append_take_drop_id set_append)
  moreover have "g \<in> set ?S"
    using assms(1) by simp
  moreover have "g \<notin> set (take n ?S)"
    using assms(2) by auto
  ultimately have g: "g \<in> set (drop n ?S)"
    by blast
  have "sorted (map game_id (take n ?S @ drop n ?S))"
    by (simp add: sorted_sort_key)
  then have "\<forall>x \<in> set (take n ?S). \<forall>y \<in> set (drop n ?S). game_id x \<le> game_id y"
    unfolding map_append sorted_append by auto
  with g assms(3) have "game_id s \<le> game_id g"
    by blast
  moreover have "game_id s \<in> set (map game_id (take n ?S))"
    using assms(3) by simp
  then have "game_id s \<noteq> game_id g"
    using assms(2) by metis
  ultimately show ?thesis
    by simp
qed

lemma selected_by_id:
  assumes "distinct (map game_id gs)" and "g \<in> set gs"
    and "game_id g \<in> set (map game_id (take n (sort_key game_id (filter P gs))))"
  shows "P g"
proof -
  from assms(3) obtain s where s: "s \<in> set (take n (sort_key game_id (filter P gs)))"
    and eq: "game_id s = game_id g"
    by auto
  from s have "s \<in> set (sort_key game_id (filter P gs))"
    by (rule in_set_takeD)
  then have sP: "s \<in> set gs" "P s"
    by simp_all
  from assms(1) have "inj_on game_id (set gs)"
    by (simp add: distinct_map)
  with sP(1) assms(2) eq have "s = g"
    by (auto dest: inj_onD)
  with sP(2) show ?thesis
    by simp
qed

text \<open>
  C1. A claim of \<open>n\<close> items by worker \<open>w\<close> at time \<open>now\<close>, the identifiers being the
  primary key of the table. The batch has \<open>min n k\<close> items, \<open>k\<close> the number of items that
  are pending and not leased; it is in strictly ascending order of identifier; each of its
  items is the selection of a row that was pending and not leased; every pending unleased
  row left out has a larger identifier than every item of the batch; exactly the rows of
  the batch get owner \<open>w\<close> and time \<open>now\<close>, every other row, column and table is as before.
\<close>

theorem claimGamesForProcessing_correct:
  assumes ids: "distinct (map game_id (game db))"
    and call: "claimGamesForProcessing w n now db = (batch, db')"
  shows "length batch = min n (length (filter (available db) (game db))) \<and>
         sorted_wrt (<) (map game_id batch) \<and>
         (\<forall>p \<in> set batch. \<exists>g \<in> set (game db). available db g \<and> p = game_pick.truncate g) \<and>
         (\<forall>g \<in> set (game db). available db g \<and> game_id g \<notin> set (map game_id batch) \<longrightarrow>
            (\<forall>p \<in> set batch. game_id p < game_id g)) \<and>
         (\<forall>g \<in> set (game db). game_id g \<in> set (map game_id batch) \<longrightarrow> available db g) \<and>
         length (game db') = length (game db) \<and>
         (\<forall>i < length (game db).
            game db' ! i =
              (if game_id (game db ! i) \<in> set (map game_id batch)
               then (game db ! i)\<lparr>processingBy := Some w, processingAt := Some now\<rparr>
               else game db ! i)) \<and>
         db' = db\<lparr>game := game db'\<rparr>"
proof -
  let ?sel = "take n (sort_key game_id (filter (available db) (game db)))"
  have batch: "batch = map game_pick.truncate ?sel"
    using claim_batch [of w n now db] call by simp
  have db': "db' = snd (claimGamesForProcessing w n now db)"
    using call by simp
  have ids_batch: "map game_id batch = map game_id ?sel"
    by (simp add: batch game_id_truncate)
  have c1: "length batch = min n (length (filter (available db) (game db)))"
    by (simp add: batch min.commute)
  have c2: "sorted_wrt (<) (map game_id batch)"
    unfolding ids_batch using ids by (rule ids_sorted_selection)
  have c3: "\<forall>p \<in> set batch. \<exists>g \<in> set (game db). available db g \<and> p = game_pick.truncate g"
  proof
    fix p assume "p \<in> set batch"
    then obtain s where s: "s \<in> set ?sel" and p: "p = game_pick.truncate s"
      by (auto simp: batch)
    from s have "s \<in> set (sort_key game_id (filter (available db) (game db)))"
      by (rule in_set_takeD)
    then have "s \<in> set (game db)" "available db s"
      by simp_all
    with p show "\<exists>g \<in> set (game db). available db g \<and> p = game_pick.truncate g"
      by blast
  qed
  have c4: "\<forall>g \<in> set (game db). available db g \<and> game_id g \<notin> set (map game_id batch) \<longrightarrow>
            (\<forall>p \<in> set batch. game_id p < game_id g)"
  proof (intro ballI impI)
    fix g p
    assume g: "g \<in> set (game db)" and a: "available db g \<and> game_id g \<notin> set (map game_id batch)"
      and "p \<in> set batch"
    then obtain s where s: "s \<in> set ?sel" and p: "p = game_pick.truncate s"
      by (auto simp: batch)
    have "game_id s < game_id g"
      using g a s unfolding ids_batch by (intro selection_smallest [where P = "available db"]) simp_all
    then show "game_id p < game_id g"
      by (simp add: p game_id_truncate)
  qed
  have c5: "\<forall>g \<in> set (game db). game_id g \<in> set (map game_id batch) \<longrightarrow> available db g"
    unfolding ids_batch using ids by (blast intro: selected_by_id)
  have rows: "game db' =
     map (\<lambda>g. if game_id g \<in> set (map game_id batch)
               then g\<lparr>processingBy := Some w, processingAt := Some now\<rparr> else g) (game db)"
    using claim_rows [of w n now db] call by simp
  have c6: "length (game db') = length (game db)"
    by (simp add: rows)
  have c7: "\<forall>i < length (game db).
            game db' ! i =
              (if game_id (game db ! i) \<in> set (map game_id batch)
               then (game db ! i)\<lparr>processingBy := Some w, processingAt := Some now\<rparr>
               else game db ! i)"
    by (simp add: rows)
  have c8: "db' = db\<lparr>game := game db'\<rparr>"
    unfolding db' by (rule claim_only_game)
  from c1 c2 c3 c4 c5 c6 c7 c8 show ?thesis
    by blast
qed

text \<open>
  On the backlog of five items, items 3 and 4 are pending and not leased: a claim of five
  returns both in ascending order, a claim of one returns item 3, and only the rows of the
  batch change owner.
\<close>

theorem claimGamesForProcessing_correct_witness:
  "distinct (map game_id (game backlog0)) \<and>
   length (filter (available backlog0) (game backlog0)) = 2 \<and>
   map game_id (fst (claimGamesForProcessing ''worker-3'' 5 100 backlog0)) = [3, 4] \<and>
   map game_id (fst (claimGamesForProcessing ''worker-3'' 1 100 backlog0)) = [3] \<and>
   map processingBy (game (snd (claimGamesForProcessing ''worker-3'' 5 100 backlog0))) =
     [Some ''worker-3'', Some ''worker-2'', None, Some ''worker-3'', Some ''worker-1''] \<and>
   map processingAt (game (snd (claimGamesForProcessing ''worker-3'' 5 100 backlog0))) =
     [Some 100, Some 5, None, Some 100, Some 7]"
proof -
  have ids: "distinct (map game_id (game backlog0))"
    by (simp add: backlog0_simps)
  have P: "filter (available backlog0) (game backlog0) = [mkGame 3 None None None, mkGame 4 (Some 1.5) None None]"
    by (simp add: backlog0_simps available_def withoutDetails_def)
  have b5: "map game_id (fst (claimGamesForProcessing ''worker-3'' 5 100 backlog0)) = [3, 4]"
    by (simp add: claim_batch P game_id_truncate) (simp add: mkGame_def)
  have b1: "map game_id (fst (claimGamesForProcessing ''worker-3'' 1 100 backlog0)) = [3]"
    by (simp add: claim_batch P game_id_truncate) (simp add: mkGame_def)
  have rows: "map processingBy (game (snd (claimGamesForProcessing ''worker-3'' 5 100 backlog0))) =
     [Some ''worker-3'', Some ''worker-2'', None, Some ''worker-3'', Some ''worker-1'']"
    "map processingAt (game (snd (claimGamesForProcessing ''worker-3'' 5 100 backlog0))) =
     [Some 100, Some 5, None, Some 100, Some 7]"
    by (simp_all add: claim_rows b5) (simp_all add: backlog0_simps)
  have call: "claimGamesForProcessing ''worker-3'' 5 100 backlog0 =
      (fst (claimGamesForProcessing ''worker-3'' 5 100 backlog0),
       snd (claimGamesForProcessing ''worker-3'' 5 100 backlog0))"
    by simp
  from ids P b5 b1 rows claimGamesForProcessing_correct [OF ids call] show ?thesis
    by simp
qed

text \<open>
  Two claims that run one after the other return disjoint batches, whoever the workers
  are: the second finds the items of the first leased. Whether claims that run at the same
  time behave like claims that run in a sequence is decided by the isolation of the
  transactions of the database engine, which the program does not set.
\<close>

lemma sequential_claims_disjoint:
  assumes first: "claimGamesForProcessing w1 n1 t1 db = (batch1, db1)"
    and second: "claimGamesForProcessing w2 n2 t2 db1 = (batch2, db2)"
  shows "set (map game_id batch1) \<inter> set (map game_id batch2) = {}"
proof (rule ccontr)
  assume "set (map game_id batch1) \<inter> set (map game_id batch2) \<noteq> {}"
  then obtain i where i1: "i \<in> set (map game_id batch1)" and i2: "i \<in> set (map game_id batch2)"
    by blast
  have rows: "game db1 =
     map (\<lambda>g. if game_id g \<in> set (map game_id batch1)
               then g\<lparr>processingBy := Some w1, processingAt := Some t1\<rparr> else g) (game db)"
    using claim_rows [of w1 n1 t1 db] first by simp
  have b2: "map game_id batch2
      = map game_id (take n2 (sort_key game_id (filter (available db1) (game db1))))"
    using claim_batch [of w2 n2 t2 db1] second by (simp add: game_id_truncate)
  from i2 obtain g where g: "g \<in> set (game db1)" and gi: "game_id g = i" and free: "available db1 g"
    unfolding b2 by (auto dest!: in_set_takeD)
  from g obtain g0 where "g0 \<in> set (game db)"
    and g0: "g = (if game_id g0 \<in> set (map game_id batch1)
               then g0\<lparr>processingBy := Some w1, processingAt := Some t1\<rparr> else g0)"
    unfolding rows by auto
  have "game_id g0 = i"
    using gi g0 by (simp split: if_splits)
  with i1 g0 have "processingBy g = Some w1"
    by simp
  with free show False
    by (simp add: available_def)
qed

section \<open>The lease invariant\<close>

lemma leaseConsistent_updateMany:
  assumes "\<forall>g \<in> set (game db). leaseConsistent g"
    and "\<And>g. leaseConsistent (data g)"
  shows "\<forall>g \<in> set (game (snd (updateMany wh data db))). leaseConsistent g"
  using assms by (auto simp: game_updateMany)

lemma claim_keeps_leased:
  assumes ids: "distinct (map game_id (game db))"
    and i: "i < length (game db)"
    and leased: "processingBy (game db ! i) \<noteq> None"
  shows "game (snd (claimGamesForProcessing w n now db)) ! i = game db ! i"
proof -
  have "game_id (game db ! i) \<notin> set (map game_id (fst (claimGamesForProcessing w n now db)))"
  proof
    have sel: "map game_id (fst (claimGamesForProcessing w n now db))
        = map game_id (take n (sort_key game_id (filter (available db) (game db))))"
      by (simp add: claim_batch game_id_truncate)
    assume "game_id (game db ! i) \<in> set (map game_id (fst (claimGamesForProcessing w n now db)))"
    then have "game_id (game db ! i)
        \<in> set (map game_id (take n (sort_key game_id (filter (available db) (game db)))))"
      unfolding sel .
    moreover have "game db ! i \<in> set (game db)"
      using i by simp
    ultimately have "available db (game db ! i)"
      using ids by (intro selected_by_id [where P = "available db" and gs = "game db" and n = n])
    with leased show False
      by (simp add: available_def)
  qed
  with i show ?thesis
    by (simp add: claim_rows)
qed

text \<open>
  C3. The two lease columns of a row are set together and cleared together: when every row
  has either both or neither, so has every row after a claim, after a release by one worker
  and after the sweep. A row has one owner column, and no operation gives a leased row to
  another worker: a claim leaves every row that has an owner exactly as it was (identifiers
  being the primary key) and gives the rows it takes to the claiming worker only; a release
  by \<open>w\<close> leaves every row that \<open>w\<close> does not own exactly as it was; after the sweep no row
  has an owner.
\<close>

theorem lease_invariant_preserved:
  assumes inv: "\<forall>g \<in> set (game db). leaseConsistent g"
    and ids: "distinct (map game_id (game db))"
  shows "(\<forall>g \<in> set (game (snd (claimGamesForProcessing w n now db))). leaseConsistent g) \<and>
         (\<forall>g \<in> set (game (releaseClaimedGames w db)). leaseConsistent g) \<and>
         (\<forall>g \<in> set (game (snd (releaseAllClaimedGames db))). leaseConsistent g) \<and>
         length (game (snd (claimGamesForProcessing w n now db))) = length (game db) \<and>
         (\<forall>i < length (game db). processingBy (game db ! i) \<noteq> None \<longrightarrow>
            game (snd (claimGamesForProcessing w n now db)) ! i = game db ! i) \<and>
         (\<forall>i < length (game db). processingBy (game db ! i) = None \<longrightarrow>
            processingBy (game (snd (claimGamesForProcessing w n now db)) ! i) = None \<or>
            processingBy (game (snd (claimGamesForProcessing w n now db)) ! i) = Some w) \<and>
         length (game (releaseClaimedGames w db)) = length (game db) \<and>
         (\<forall>i < length (game db). processingBy (game db ! i) \<noteq> Some w \<longrightarrow>
            game (releaseClaimedGames w db) ! i = game db ! i) \<and>
         (\<forall>g \<in> set (game (snd (releaseAllClaimedGames db))). processingBy g = None)"
proof -
  have set_lease: "leaseConsistent (g\<lparr>processingBy := Some w, processingAt := Some now\<rparr>)" for g :: game
    by (simp add: leaseConsistent_def)
  have clear_lease: "leaseConsistent (g\<lparr>processingBy := None, processingAt := None\<rparr>)" for g :: game
    by (simp add: leaseConsistent_def)
  have claim: "\<forall>g \<in> set (game (snd (claimGamesForProcessing w n now db))). leaseConsistent g"
    using inv leaseConsistent_updateMany [OF inv, where data = "\<lambda>g. g\<lparr>processingBy := Some w, processingAt := Some now\<rparr>", OF set_lease]
    by (simp add: claimGamesForProcessing_def Let_def)
  have rel: "\<forall>g \<in> set (game (releaseClaimedGames w db)). leaseConsistent g"
    unfolding releaseClaimedGames_def
    by (rule leaseConsistent_updateMany [OF inv]) (rule clear_lease)
  have relAll: "\<forall>g \<in> set (game (snd (releaseAllClaimedGames db))). leaseConsistent g"
    unfolding releaseAllClaimedGames_def
    by (rule leaseConsistent_updateMany [OF inv]) (rule clear_lease)
  have len: "length (game (snd (claimGamesForProcessing w n now db))) = length (game db)"
    by (simp add: claim_rows)
  have kept: "\<forall>i < length (game db). processingBy (game db ! i) \<noteq> None \<longrightarrow>
            game (snd (claimGamesForProcessing w n now db)) ! i = game db ! i"
    using ids by (blast intro: claim_keeps_leased)
  have taken: "\<forall>i < length (game db). processingBy (game db ! i) = None \<longrightarrow>
            processingBy (game (snd (claimGamesForProcessing w n now db)) ! i) = None \<or>
            processingBy (game (snd (claimGamesForProcessing w n now db)) ! i) = Some w"
    by (simp add: claim_rows)
  have len_rel: "length (game (releaseClaimedGames w db)) = length (game db)"
    by (simp add: game_releaseClaimedGames)
  have others: "\<forall>i < length (game db). processingBy (game db ! i) \<noteq> Some w \<longrightarrow>
            game (releaseClaimedGames w db) ! i = game db ! i"
    by (simp add: game_releaseClaimedGames)
  have swept: "\<forall>g \<in> set (game (snd (releaseAllClaimedGames db))). processingBy g = None"
    by (auto simp: game_releaseAllClaimedGames)
  show ?thesis
    by (intro conjI claim rel relAll len kept taken len_rel others swept)
qed

text \<open>
  On the backlog of five items, where worker-2 holds item 1 and worker-1 holds item 5: a
  claim by worker-3 takes items 3 and 4 and leaves the two leases with their owners and
  their times; a release by worker-1 leaves the lease of worker-2.
\<close>

theorem lease_invariant_preserved_witness:
  "list_all leaseConsistent (game backlog0) \<and>
   distinct (map game_id (game backlog0)) \<and>
   list_all leaseConsistent (game (snd (claimGamesForProcessing ''worker-3'' 2 100 backlog0))) \<and>
   list_all leaseConsistent (game (releaseClaimedGames ''worker-1'' backlog0)) \<and>
   list_all leaseConsistent (game (snd (releaseAllClaimedGames backlog0))) \<and>
   map processingBy (game (snd (claimGamesForProcessing ''worker-3'' 2 100 backlog0))) =
     [Some ''worker-3'', Some ''worker-2'', None, Some ''worker-3'', Some ''worker-1''] \<and>
   game (snd (claimGamesForProcessing ''worker-3'' 2 100 backlog0)) ! 1 = game backlog0 ! 1 \<and>
   game (snd (claimGamesForProcessing ''worker-3'' 2 100 backlog0)) ! 4 = game backlog0 ! 4 \<and>
   game (releaseClaimedGames ''worker-1'' backlog0) ! 1 = game backlog0 ! 1 \<and>
   list_all (\<lambda>g. processingBy g = None) (game (snd (releaseAllClaimedGames backlog0)))"
proof -
  have inv: "\<forall>g \<in> set (game backlog0). leaseConsistent g"
    by (simp add: backlog0_simps leaseConsistent_def)
  have ids: "distinct (map game_id (game backlog0))"
    by (simp add: backlog0_simps)
  have len: "length (game backlog0) = 5"
    by (simp add: backlog0_simps)
  have owners: "processingBy (game backlog0 ! 1) = Some ''worker-2''"
    "processingBy (game backlog0 ! 4) = Some ''worker-1''"
    by (simp_all add: backlog0_simps)
  have P: "filter (available backlog0) (game backlog0) = [mkGame 3 None None None, mkGame 4 (Some 1.5) None None]"
    by (simp add: backlog0_simps available_def withoutDetails_def)
  have batch: "map game_id (fst (claimGamesForProcessing ''worker-3'' 2 100 backlog0)) = [3, 4]"
    by (simp add: claim_batch P game_id_truncate) (simp add: mkGame_def)
  have rows: "map processingBy (game (snd (claimGamesForProcessing ''worker-3'' 2 100 backlog0))) =
     [Some ''worker-3'', Some ''worker-2'', None, Some ''worker-3'', Some ''worker-1'']"
    by (simp add: claim_rows batch) (simp add: backlog0_simps)
  note by3 = lease_invariant_preserved [OF inv ids, where w = "''worker-3''" and n = 2 and now = 100]
  note by1 = lease_invariant_preserved [OF inv ids, where w = "''worker-1''" and n = 2 and now = 100]
  note rest3 = by3 [THEN conjunct2, THEN conjunct2, THEN conjunct2, THEN conjunct2]
  note rest1 = by1 [THEN conjunct2, THEN conjunct2, THEN conjunct2, THEN conjunct2]
  have c3: "list_all leaseConsistent (game (snd (claimGamesForProcessing ''worker-3'' 2 100 backlog0)))"
    unfolding list_all_iff by (rule by3 [THEN conjunct1])
  have r1: "list_all leaseConsistent (game (releaseClaimedGames ''worker-1'' backlog0))"
    unfolding list_all_iff by (rule by1 [THEN conjunct2, THEN conjunct1])
  have ra: "list_all leaseConsistent (game (snd (releaseAllClaimedGames backlog0)))"
    unfolding list_all_iff by (rule by1 [THEN conjunct2, THEN conjunct2, THEN conjunct1])
  have swept: "list_all (\<lambda>g. processingBy g = None) (game (snd (releaseAllClaimedGames backlog0)))"
    unfolding list_all_iff by (rule rest1 [THEN conjunct2, THEN conjunct2, THEN conjunct2, THEN conjunct2])
  note kept = rest3 [THEN conjunct1, rule_format]
  note others = rest1 [THEN conjunct2, THEN conjunct2, THEN conjunct2, THEN conjunct1, rule_format]
  have k1: "game (snd (claimGamesForProcessing ''worker-3'' 2 100 backlog0)) ! 1 = game backlog0 ! 1"
    by (rule kept) (use len owners in simp_all)
  have k4: "game (snd (claimGamesForProcessing ''worker-3'' 2 100 backlog0)) ! 4 = game backlog0 ! 4"
    by (rule kept) (use len owners in simp_all)
  have o1: "game (releaseClaimedGames ''worker-1'' backlog0) ! 1 = game backlog0 ! 1"
    by (rule others) (use len owners in simp_all)
  have i0: "list_all leaseConsistent (game backlog0)"
    unfolding list_all_iff by (rule inv)
  show ?thesis
    by (intro conjI i0 ids c3 r1 ra rows k1 k4 o1 swept)
qed

section \<open>Dispatch order, settlement and pacing\<close>

lemmas limiter_eval =
  throttle_def processQueue_def dispatchLoop.simps dispatchNext_def tickOf_def task_def
  newRateLimiter_def Let_def emit_def failing_def

lemma dispatchLoop_Nil:
  "queue rl = [] \<Longrightarrow> dispatchLoop env rl s now = ([], rl, s, now)"
  by (simp add: dispatchLoop.simps)

lemma dispatchLoop_Cons:
  "queue rl = t # rest \<Longrightarrow>
   dispatchLoop env rl s now =
     (case dispatchNext (tickOf env) t rl s now of
        (d, rl', s', now') \<Rightarrow>
          (case dispatchLoop (tl env) rl' s' now' of (ds, out) \<Rightarrow> (d # ds, out)))"
  by (subst dispatchLoop.simps) simp

lemma dispatchNext_facts:
  assumes "dispatchNext e t rl s now = (d, rl', s', now')"
  shows "ran d = t" and "settlement d = fst (t s)" and "s' = snd (t s)"
    and "lastRequestTime rl' = dispatchedAt d"
    and "settledAt d = now'" and "now' = dispatchedAt d + int (busy e)"
    and "queue rl' = tl (queue rl) @ map task (arrivals e)"
    and "minDelay rl' = minDelay rl" and "maxDelay rl' = maxDelay rl"
    and "running rl' = running rl"
    and "now \<le> dispatchedAt d"
  using assms
  by (auto simp: dispatchNext_def Let_def split: prod.splits if_splits)

lemma dispatchNext_paced:
  assumes step: "dispatchNext e t rl s now = (d, rl', s', now')"
    and order: "minDelay rl \<le> maxDelay rl" and rnd: "0 \<le> random e"
    and punctual: "0 \<le> drift e"
  shows "real_of_int (lastRequestTime rl) + minDelay rl \<le> real_of_int (dispatchedAt d)"
proof -
  define delay where "delay = minDelay rl + random e * (maxDelay rl - minDelay rl)"
  define wait where "wait = max 0 (delay - real_of_int (now - lastRequestTime rl))"
  have started: "dispatchedAt d = (if wait > 0 then max now (now + \<lceil>wait\<rceil> + drift e) else now)"
    using step unfolding wait_def delay_def
    by (auto simp: dispatchNext_def Let_def split: prod.splits)
  have "0 \<le> random e * (maxDelay rl - minDelay rl)"
    using order rnd by simp
  then have delay: "minDelay rl \<le> delay"
    unfolding delay_def by simp
  show ?thesis
  proof (cases "wait > 0")
    case True
    then have w: "wait = delay - real_of_int (now - lastRequestTime rl)"
      unfolding wait_def by simp
    have up: "wait \<le> real_of_int \<lceil>wait\<rceil>"
      by (rule le_of_int_ceiling)
    have "now + \<lceil>wait\<rceil> \<le> dispatchedAt d"
      using started True punctual by simp
    then have "real_of_int (now + \<lceil>wait\<rceil>) \<le> real_of_int (dispatchedAt d)"
      by (simp only: of_int_le_iff)
    then have at: "real_of_int now + real_of_int \<lceil>wait\<rceil> \<le> real_of_int (dispatchedAt d)"
      by simp
    have "wait = delay - (real_of_int now - real_of_int (lastRequestTime rl))"
      using w by simp
    with up at delay show ?thesis
      by linarith
  next
    case False
    then have "delay - real_of_int (now - lastRequestTime rl) \<le> 0"
      unfolding wait_def by simp
    moreover have "dispatchedAt d = now"
      using started False by simp
    ultimately show ?thesis
      using delay by simp
  qed
qed

lemma dispatchLoop_run_induct [consumes 1, case_names idle step]:
  assumes run: "dispatchLoop env rl s now = (ds, rl', s', now')"
    and idle: "\<And>env rl s now. queue rl = [] \<Longrightarrow> P env rl s now [] rl s now"
    and step: "\<And>env rl s now t rest d rl1 s1 now1 ds rl' s' now'.
        queue rl = t # rest \<Longrightarrow>
        dispatchNext (tickOf env) t rl s now = (d, rl1, s1, now1) \<Longrightarrow>
        dispatchLoop (tl env) rl1 s1 now1 = (ds, rl', s', now') \<Longrightarrow>
        P (tl env) rl1 s1 now1 ds rl' s' now' \<Longrightarrow>
        P env rl s now (d # ds) rl' s' now'"
  shows "P env rl s now ds rl' s' now'"
  using run
proof (induction env rl s now arbitrary: ds rl' s' now' rule: dispatchLoop.induct)
  case (1 env rl s now)
  show ?case
  proof (cases "queue rl")
    case Nil
    then show ?thesis
      using "1.prems" by (simp add: dispatchLoop_Nil idle)
  next
    case (Cons t rest)
    obtain d rl1 s1 now1 where next1: "dispatchNext (tickOf env) t rl s now = (d, rl1, s1, now1)"
      by (metis prod_cases4)
    obtain ds1 rl2 s2 now2 where rec: "dispatchLoop (tl env) rl1 s1 now1 = (ds1, rl2, s2, now2)"
      by (metis prod_cases4)
    have "P (tl env) rl1 s1 now1 ds1 rl2 s2 now2"
      by (rule "1.IH" [OF Cons next1 [symmetric] refl refl rec])
    with Cons next1 rec have "P env rl s now (d # ds1) rl2 s2 now2"
      by (rule step)
    moreover have "dispatchLoop env rl s now = (d # ds1, rl2, s2, now2)"
      using Cons next1 rec by (simp add: dispatchLoop_Cons)
    ultimately show ?thesis
      using "1.prems" by simp
  qed
qed

lemma dispatchLoop_fifo:
  assumes "dispatchLoop env rl s now = (ds, rl', s', now')"
  shows "map ran ds = queue rl @ map task (concat (map arrivals (take (length ds) env)))"
  using assms
proof (induction rule: dispatchLoop_run_induct)
  case (idle env rl s now)
  then show ?case by simp
next
  case (step env rl s now t rest d rl1 s1 now1 ds rl' s' now')
  have q1: "queue rl1 = rest @ map task (arrivals (tickOf env))"
    using dispatchNext_facts(7) [OF step(2)] step(1) by simp
  have "ran d = t"
    by (rule dispatchNext_facts(1) [OF step(2)])
  moreover have "arrivals (tickOf env) @ concat (map arrivals (take (length ds) (tl env)))
                 = concat (map arrivals (take (Suc (length ds)) env))"
    by (cases env) (simp_all add: tickOf_def quiet_def)
  ultimately show ?case
    using step(4) step(1) q1 by (simp del: take_Suc_Cons flip: map_append)
qed

lemma dispatchLoop_final:
  assumes "dispatchLoop env rl s now = (ds, rl', s', now')"
  shows "queue rl' = [] \<and> minDelay rl' = minDelay rl \<and> maxDelay rl' = maxDelay rl \<and>
         running rl' = running rl"
  using assms
proof (induction rule: dispatchLoop_run_induct)
  case (idle env rl s now)
  then show ?case by simp
next
  case (step env rl s now t rest d rl1 s1 now1 ds rl' s' now')
  then show ?case
    using dispatchNext_facts(8,9,10) [OF step(2)] by simp
qed

lemma dispatchLoop_runAll:
  assumes "dispatchLoop env rl s now = (ds, rl', s', now')"
  shows "runAll (map ran ds) s = (map settlement ds, s')"
  using assms
proof (induction rule: dispatchLoop_run_induct)
  case (idle env rl s now)
  then show ?case by simp
next
  case (step env rl s now t rest d rl1 s1 now1 ds rl' s' now')
  have "ran d s = (settlement d, s1)"
    using dispatchNext_facts(1,2,3) [OF step(2)] by simp
  with step(4) show ?case
    by simp
qed

lemma tickOf_punctual:
  "\<forall>e \<in> set env. 0 \<le> random e \<and> 0 \<le> drift e \<Longrightarrow>
   0 \<le> random (tickOf env) \<and> 0 \<le> drift (tickOf env)"
  by (cases env) (simp_all add: tickOf_def quiet_def)

lemma dispatchLoop_paced:
  assumes "dispatchLoop env rl s now = (ds, rl', s', now')"
    and "minDelay rl \<le> maxDelay rl" and "\<forall>e \<in> set env. 0 \<le> random e \<and> 0 \<le> drift e"
  shows "successively (\<lambda>a b. minDelay rl \<le> real_of_int (dispatchedAt b - dispatchedAt a)) ds \<and>
         (ds \<noteq> [] \<longrightarrow>
            real_of_int (lastRequestTime rl) + minDelay rl \<le> real_of_int (dispatchedAt (hd ds)))"
  using assms
proof (induction rule: dispatchLoop_run_induct)
  case (idle env rl s now)
  then show ?case by simp
next
  case (step env rl s now t rest d rl1 s1 now1 ds rl' s' now')
  note order = step(5) and rnd = step(6)
  have same: "minDelay rl1 = minDelay rl" "maxDelay rl1 = maxDelay rl"
    "lastRequestTime rl1 = dispatchedAt d"
    using dispatchNext_facts(4,8,9) [OF step(2)] by simp_all
  have "\<forall>e \<in> set (tl env). 0 \<le> random e \<and> 0 \<le> drift e"
    using rnd by (cases env) simp_all
  with step(4) order same
  have IH: "successively (\<lambda>a b. minDelay rl \<le> real_of_int (dispatchedAt b - dispatchedAt a)) ds"
    "ds \<noteq> [] \<longrightarrow> minDelay rl \<le> real_of_int (dispatchedAt (hd ds) - dispatchedAt d)"
    by auto
  then have "successively (\<lambda>a b. minDelay rl \<le> real_of_int (dispatchedAt b - dispatchedAt a)) (d # ds)"
    by (auto simp: successively_Cons)
  moreover have "real_of_int (lastRequestTime rl) + minDelay rl \<le> real_of_int (dispatchedAt (hd (d # ds)))"
    using dispatchNext_paced [OF step(2) order] tickOf_punctual [OF rnd] by simp
  ultimately show ?case
    by blast
qed

lemma dispatchLoop_last:
  assumes "dispatchLoop env rl s now = (ds, rl', s', now')"
  shows "lastRequestTime rl' = (if ds = [] then lastRequestTime rl else dispatchedAt (last ds))"
  using assms
proof (induction rule: dispatchLoop_run_induct)
  case (idle env rl s now)
  then show ?case by simp
next
  case (step env rl s now t rest d rl1 s1 now1 ds rl' s' now')
  then show ?case
    using dispatchNext_facts(4) [OF step(2)] by simp
qed

lemma dispatchLoop_sequential:
  assumes "dispatchLoop env rl s now = (ds, rl', s', now')"
  shows "successively (\<lambda>a b. settledAt a \<le> dispatchedAt b) ds \<and>
         (\<forall>d \<in> set ds. dispatchedAt d \<le> settledAt d) \<and>
         (ds \<noteq> [] \<longrightarrow> now \<le> dispatchedAt (hd ds))"
  using assms
proof (induction rule: dispatchLoop_run_induct)
  case (idle env rl s now)
  then show ?case by simp
next
  case (step env rl s now t rest d rl1 s1 now1 ds rl' s' now')
  have "settledAt d = now1" "dispatchedAt d \<le> settledAt d" "now \<le> dispatchedAt d"
    using dispatchNext_facts(5,6,11) [OF step(2)] by simp_all
  with step(4) show ?case
    by (auto simp: successively_Cons)
qed

lemma processQueue_idle:
  assumes "\<not> running rl" and "queue rl \<noteq> []"
    and "dispatchLoop env (rl\<lparr>running := True\<rparr>) s now = (ds, rl1, s', now')"
  shows "processQueue env rl s now = (ds, rl1\<lparr>running := False\<rparr>, s', now')"
  using assms by (simp add: processQueue_def)

lemma processQueue_run:
  assumes run: "processQueue env rl s now = (ds, rl', s', now')" and idle: "\<not> running rl"
  obtains rl1 where "dispatchLoop env (rl\<lparr>running := True\<rparr>) s now = (ds, rl1, s', now')"
    and "rl' = rl1\<lparr>running := False\<rparr>"
proof (cases "queue rl")
  case Nil
  then have "dispatchLoop env (rl\<lparr>running := True\<rparr>) s now = ([], rl\<lparr>running := True\<rparr>, s, now)"
    by (simp add: dispatchLoop_Nil)
  moreover have "ds = []" "rl' = rl" "s' = s" "now' = now"
    using run Nil by (simp_all add: processQueue_def)
  moreover have "rl = rl\<lparr>running := True\<rparr>\<lparr>running := False\<rparr>"
    using idle by simp
  ultimately show ?thesis
    using that by metis
next
  case (Cons t rest)
  obtain ds1 rl1 s1 now1 where loop: "dispatchLoop env (rl\<lparr>running := True\<rparr>) s now = (ds1, rl1, s1, now1)"
    by (metis prod_cases4)
  have "processQueue env rl s now = (ds1, rl1\<lparr>running := False\<rparr>, s1, now1)"
    using idle Cons loop by (intro processQueue_idle) simp_all
  with run loop that show ?thesis
    by simp
qed

lemma runAll_nth:
  "runAll ts s = (rs, s') \<Longrightarrow> k < length ts \<Longrightarrow>
   rs ! k = fst ((ts ! k) (snd (runAll (take k ts) s)))"
proof (induction ts arbitrary: s rs s' k)
  case Nil
  then show ?case by simp
next
  case (Cons t ts)
  obtain r s1 where t: "t s = (r, s1)"
    by (metis surj_pair)
  obtain rs1 s2 where rest: "runAll ts s1 = (rs1, s2)"
    by (metis surj_pair)
  have rs: "rs = r # rs1"
    using Cons.prems(1) t rest by simp
  show ?case
  proof (cases k)
    case 0
    then show ?thesis
      using t rs by simp
  next
    case (Suc j)
    then have "rs1 ! j = fst ((ts ! j) (snd (runAll (take j ts) s1)))"
      using Cons.IH [OF rest] Cons.prems(2) by simp
    then show ?thesis
      using Suc t rs by (simp split: prod.splits)
  qed
qed

lemma task_outcome:
  "fst (task fn s) = (case fst (fn s) of Inl err \<Rightarrow> Rejected err | Inr result \<Rightarrow> Resolved result)"
  "snd (task fn s) = snd (fn s)"
  by (simp_all add: task_def split: prod.splits sum.splits)

text \<open>
  C7. A call \<open>throttle fn\<close> on a limiter that is not running starts an activation that
  dispatches the tasks already queued, then the task of \<open>fn\<close>, then the tasks of the
  operations that arrive meanwhile, in this order. The promise of \<open>fn\<close> settles with the
  outcome of \<open>fn\<close> on the world left by the tasks before it: resolved with the result,
  rejected with the error. Every dispatched task settles with its own outcome, whatever
  the tasks before it did: a rejection does not stop the loop, which ends with an empty
  queue.
\<close>

theorem throttle_settles_with_outcome:
  assumes run: "throttle fn env rl s now = (ds, rl', s', now')" and idle: "\<not> running rl"
  shows "map ran ds = queue rl @ task fn # map task (concat (map arrivals (take (length ds) env))) \<and>
         length (queue rl) < length ds \<and>
         settlement (ds ! length (queue rl)) =
           (case fst (fn (snd (runAll (queue rl) s))) of
              Inl err \<Rightarrow> Rejected err
            | Inr result \<Rightarrow> Resolved result) \<and>
         (\<forall>k < length ds.
            settlement (ds ! k) = fst (ran (ds ! k) (snd (runAll (map ran (take k ds)) s)))) \<and>
         s' = snd (runAll (map ran ds) s) \<and>
         queue rl' = [] \<and> \<not> running rl'"
proof -
  let ?rl = "rl\<lparr>queue := queue rl @ [task fn]\<rparr>"
  let ?n = "length (queue rl)"
  have run': "processQueue env ?rl s now = (ds, rl', s', now')"
    using run by (simp add: throttle_def)
  have idle': "\<not> running ?rl"
    using idle by simp
  from run' idle' obtain rl1
    where loop: "dispatchLoop env (?rl\<lparr>running := True\<rparr>) s now = (ds, rl1, s', now')"
      and rl': "rl' = rl1\<lparr>running := False\<rparr>"
    by (rule processQueue_run)
  have fifo: "map ran ds = queue rl @ task fn # map task (concat (map arrivals (take (length ds) env)))"
    using dispatchLoop_fifo [OF loop] by simp
  then have "length (map ran ds) = length (queue rl @ task fn # map task (concat (map arrivals (take (length ds) env))))"
    by (rule arg_cong)
  then have len: "?n < length ds"
    by simp
  have all: "runAll (map ran ds) s = (map settlement ds, s')"
    by (rule dispatchLoop_runAll [OF loop])
  have each: "settlement (ds ! k) = fst (ran (ds ! k) (snd (runAll (map ran (take k ds)) s)))"
    if "k < length ds" for k
    using runAll_nth [OF all, of k] that by (simp add: take_map)
  have "map ran (take ?n ds) = take ?n (map ran ds)"
    by (simp add: take_map)
  also have "\<dots> = queue rl"
    unfolding fifo by simp
  finally have before: "map ran (take ?n ds) = queue rl" .
  have "ran (ds ! ?n) = map ran ds ! ?n"
    using len by simp
  also have "\<dots> = task fn"
    unfolding fifo by simp
  finally have mine: "ran (ds ! ?n) = task fn" .
  have own: "settlement (ds ! ?n) =
           (case fst (fn (snd (runAll (queue rl) s))) of
              Inl err \<Rightarrow> Rejected err
            | Inr result \<Rightarrow> Resolved result)"
    using each [OF len] by (simp only: before mine task_outcome)
  have fin: "queue rl' = []" "\<not> running rl'"
    using dispatchLoop_final [OF loop] by (simp_all add: rl')
  have world: "s' = snd (runAll (map ran ds) s)"
    by (simp add: all)
  from fifo len own each world fin show ?thesis
    by blast
qed

text \<open>
  A limiter with two queued tasks, the second of which fails: the third operation is
  dispatched after the failure and resolves with its own result.
\<close>

theorem throttle_settles_with_outcome_witness:
  "\<not> running busyLimiter \<and>
   map settlement (fst (throttle (emit 3) [] busyLimiter [] 5000))
     = [Resolved 1, Rejected (Error ''boom''), Resolved 3] \<and>
   map dispatchedAt (fst (throttle (emit 3) [] busyLimiter [] 5000)) = [5000, 6000, 7000] \<and>
   fst (snd (snd (throttle (emit 3) [] busyLimiter [] 5000))) = [1, 3] \<and>
   queue (fst (snd (throttle (emit 3) [] busyLimiter [] 5000))) = []"
proof -
  have idle: "\<not> running busyLimiter"
    by (simp add: busyLimiter_def)
  have run: "throttle (emit 3) [] busyLimiter [] 5000 =
      (fst (throttle (emit 3) [] busyLimiter [] 5000),
       fst (snd (throttle (emit 3) [] busyLimiter [] 5000)),
       fst (snd (snd (throttle (emit 3) [] busyLimiter [] 5000))),
       snd (snd (snd (throttle (emit 3) [] busyLimiter [] 5000))))"
    by simp
  have "queue (fst (snd (throttle (emit 3) [] busyLimiter [] 5000))) = []"
    using throttle_settles_with_outcome [OF run idle] by blast
  moreover have "map settlement (fst (throttle (emit 3) [] busyLimiter [] 5000))
     = [Resolved 1, Rejected (Error ''boom''), Resolved 3]"
    by (simp add: limiter_eval busyLimiter_def quiet_def)
  moreover have "map dispatchedAt (fst (throttle (emit 3) [] busyLimiter [] 5000)) = [5000, 6000, 7000]"
    by (simp add: limiter_eval busyLimiter_def quiet_def)
  moreover have "fst (snd (snd (throttle (emit 3) [] busyLimiter [] 5000))) = [1, 3]"
    by (simp add: limiter_eval busyLimiter_def quiet_def)
  ultimately show ?thesis
    using idle by simp
qed

subsection \<open>Pacing\<close>

lemma processQueue_fifo:
  assumes run: "processQueue env rl s now = (ds, rl', s', now')" and idle: "\<not> running rl"
  shows "map ran ds = queue rl @ map task (concat (map arrivals (take (length ds) env)))"
    and "successively (\<lambda>a b. settledAt a \<le> dispatchedAt b) ds"
    and "\<forall>d \<in> set ds. dispatchedAt d \<le> settledAt d"
    and "queue rl' = []" and "\<not> running rl'"
    and "minDelay rl' = minDelay rl" and "maxDelay rl' = maxDelay rl"
    and "lastRequestTime rl' = (if ds = [] then lastRequestTime rl else dispatchedAt (last ds))"
proof -
  from run idle obtain rl1
    where loop: "dispatchLoop env (rl\<lparr>running := True\<rparr>) s now = (ds, rl1, s', now')"
      and rl': "rl' = rl1\<lparr>running := False\<rparr>"
    by (rule processQueue_run)
  show "map ran ds = queue rl @ map task (concat (map arrivals (take (length ds) env)))"
    using dispatchLoop_fifo [OF loop] by simp
  show "successively (\<lambda>a b. settledAt a \<le> dispatchedAt b) ds"
    and "\<forall>d \<in> set ds. dispatchedAt d \<le> settledAt d"
    using dispatchLoop_sequential [OF loop] by simp_all
  show "queue rl' = []" and "\<not> running rl'"
    and "minDelay rl' = minDelay rl" and "maxDelay rl' = maxDelay rl"
    using dispatchLoop_final [OF loop] by (simp_all add: rl')
  show "lastRequestTime rl' = (if ds = [] then lastRequestTime rl else dispatchedAt (last ds))"
    using dispatchLoop_last [OF loop] by (simp add: rl')
qed

lemma processQueue_paced:
  assumes run: "processQueue env rl s now = (ds, rl', s', now')" and idle: "\<not> running rl"
    and order: "minDelay rl \<le> maxDelay rl"
    and ticks: "\<forall>e \<in> set env. 0 \<le> random e \<and> random e < 1 \<and> 0 \<le> drift e"
  shows "successively (\<lambda>a b. minDelay rl \<le> real_of_int (dispatchedAt b - dispatchedAt a)) ds"
    and "ds \<noteq> [] \<longrightarrow>
           real_of_int (lastRequestTime rl) + minDelay rl \<le> real_of_int (dispatchedAt (hd ds))"
proof -
  from run idle obtain rl1
    where loop: "dispatchLoop env (rl\<lparr>running := True\<rparr>) s now = (ds, rl1, s', now')"
    by (rule processQueue_run)
  have "\<forall>e \<in> set env. 0 \<le> random e \<and> 0 \<le> drift e"
    using ticks by simp
  with dispatchLoop_paced [OF loop] order
  show "successively (\<lambda>a b. minDelay rl \<le> real_of_int (dispatchedAt b - dispatchedAt a)) ds"
    and "ds \<noteq> [] \<longrightarrow>
           real_of_int (lastRequestTime rl) + minDelay rl \<le> real_of_int (dispatchedAt (hd ds))"
    by simp_all
qed

lemma awaited_calls_paced:
  assumes first: "throttle a env1 rl s now = (ds1, rl1, s1, now1)"
    and second: "throttle b env2 rl1 s1 later = (ds2, rl2, s2, now2)"
    and empty: "queue rl = []" and idle: "\<not> running rl"
    and order: "minDelay rl \<le> maxDelay rl"
    and ticks: "\<forall>e \<in> set env2. 0 \<le> random e \<and> random e < 1 \<and> 0 \<le> drift e"
  shows "ds1 \<noteq> [] \<and> ds2 \<noteq> [] \<and> ran (hd ds1) = task a \<and> ran (hd ds2) = task b \<and>
         minDelay rl \<le> real_of_int (dispatchedAt (hd ds2) - dispatchedAt (last ds1))"
proof -
  let ?rl = "rl\<lparr>queue := queue rl @ [task a]\<rparr>"
  let ?rl1 = "rl1\<lparr>queue := queue rl1 @ [task b]\<rparr>"
  have run1: "processQueue env1 ?rl s now = (ds1, rl1, s1, now1)"
    using first by (simp add: throttle_def)
  have idle1: "\<not> running ?rl"
    using idle by simp
  note one = processQueue_fifo [OF run1 idle1]
  have fifo1: "map ran ds1 = task a # map task (concat (map arrivals (take (length ds1) env1)))"
    using one(1) empty by simp
  then have ne1: "ds1 \<noteq> []"
    by auto
  have hd1: "ran (hd ds1) = task a"
    using fifo1 ne1 by (cases ds1) simp_all
  have rl1: "queue rl1 = []" "\<not> running rl1" "minDelay rl1 = minDelay rl"
    "maxDelay rl1 = maxDelay rl" "lastRequestTime rl1 = dispatchedAt (last ds1)"
    using one(4,5,6,7,8) ne1 by simp_all
  have run2: "processQueue env2 ?rl1 s1 later = (ds2, rl2, s2, now2)"
    using second by (simp add: throttle_def)
  have idle2: "\<not> running ?rl1"
    using rl1(2) by simp
  have order2: "minDelay ?rl1 \<le> maxDelay ?rl1"
    using order rl1(3,4) by simp
  have fifo2: "map ran ds2 = task b # map task (concat (map arrivals (take (length ds2) env2)))"
    using processQueue_fifo(1) [OF run2 idle2] rl1(1) by simp
  then have ne2: "ds2 \<noteq> []"
    by auto
  have hd2: "ran (hd ds2) = task b"
    using fifo2 ne2 by (cases ds2) simp_all
  have "real_of_int (lastRequestTime ?rl1) + minDelay ?rl1 \<le> real_of_int (dispatchedAt (hd ds2))"
    using processQueue_paced(2) [OF run2 idle2 order2 ticks] ne2 by blast
  then have "minDelay rl \<le> real_of_int (dispatchedAt (hd ds2) - dispatchedAt (last ds1))"
    using rl1(3,5) by simp
  with ne1 ne2 hd1 hd2 show ?thesis
    by blast
qed

lemma concat_all_empty:
  "\<forall>x \<in> set xs. f x = [] \<Longrightarrow> concat (map f xs) = []"
  by (induction xs) simp_all

lemma back_to_back_three:
  assumes rnd: "0 \<le> random e \<and> random e < 1 \<and> 0 \<le> drift e" and arr: "arrivals e = [b, c]"
    and rest: "\<forall>e' \<in> set es. 0 \<le> random e' \<and> random e' < 1 \<and> 0 \<le> drift e' \<and> arrivals e' = []"
  shows "\<exists>d0 d1 d2 rl' s' now'.
           throttle a (e # es) (newRateLimiter 1000 2000) s now = ([d0, d1, d2], rl', s', now') \<and>
           ran d0 = task a \<and> ran d1 = task b \<and> ran d2 = task c \<and>
           dispatchedAt d0 < dispatchedAt d1 \<and> dispatchedAt d1 < dispatchedAt d2 \<and>
           1000 \<le> dispatchedAt d1 - dispatchedAt d0 \<and>
           1000 \<le> dispatchedAt d2 - dispatchedAt d1 \<and>
           settledAt d0 \<le> dispatchedAt d1 \<and> dispatchedAt d1 \<le> settledAt d1 \<and>
           settledAt d1 \<le> dispatchedAt d2 \<and> dispatchedAt d2 \<le> settledAt d2"
proof -
  let ?rl = "(newRateLimiter 1000 2000 :: ('a, 'b) rateLimiter)\<lparr>queue := [task a]\<rparr>"
  obtain ds rl' s' now' where run: "throttle a (e # es) (newRateLimiter 1000 2000) s now = (ds, rl', s', now')"
    by (metis prod_cases4)
  then have run': "processQueue (e # es) ?rl s now = (ds, rl', s', now')"
    by (simp add: throttle_def newRateLimiter_def)
  have idle: "\<not> running ?rl" and order: "minDelay ?rl \<le> maxDelay ?rl"
    by (simp_all add: newRateLimiter_def)
  have ticks: "\<forall>x \<in> set (e # es). 0 \<le> random x \<and> random x < 1 \<and> 0 \<le> drift x"
    using rnd rest by simp
  note order_facts = processQueue_fifo [OF run' idle]
  note pace_facts = processQueue_paced [OF run' idle order ticks]
  have fifo: "map ran ds = task a # map task (concat (map arrivals (take (length ds) (e # es))))"
    using order_facts(1) by simp
  then have "ds \<noteq> []"
    by auto
  then obtain m where m: "length ds = Suc m"
    by (cases ds) simp_all
  have "\<forall>x \<in> set (take m es). arrivals x = []"
    using rest by (auto dest: in_set_takeD)
  then have "concat (map arrivals (take m es)) = []"
    by (rule concat_all_empty)
  then have "map ran ds = [task a, task b, task c]"
    using fifo m arr by simp
  then obtain d0 d1 d2 where ds: "ds = [d0, d1, d2]"
    and rans: "ran d0 = task a" "ran d1 = task b" "ran d2 = task c"
    by auto
  have min: "minDelay ?rl = 1000"
    by (simp add: newRateLimiter_def)
  have "1000 \<le> real_of_int (dispatchedAt d1 - dispatchedAt d0)"
    "1000 \<le> real_of_int (dispatchedAt d2 - dispatchedAt d1)"
    using pace_facts(1) unfolding ds min by simp_all
  then have pace: "1000 \<le> dispatchedAt d1 - dispatchedAt d0" "1000 \<le> dispatchedAt d2 - dispatchedAt d1"
    by linarith+
  have seq: "settledAt d0 \<le> dispatchedAt d1" "settledAt d1 \<le> dispatchedAt d2"
    using order_facts(2) unfolding ds by simp_all
  have own: "dispatchedAt d1 \<le> settledAt d1" "dispatchedAt d2 \<le> settledAt d2"
    using order_facts(3) unfolding ds by simp_all
  from pace have "dispatchedAt d0 < dispatchedAt d1" "dispatchedAt d1 < dispatchedAt d2"
    by simp_all
  with run ds rans pace seq own show ?thesis
    by blast
qed

text \<open>
  C6, as stated, puts at least \<open>minDelay\<close> between consecutive dispatch timestamps in every
  run. The loop asks the timer for the time that is missing and does not read the clock
  against it afterwards, so the distance is the one the timer gives: with the delays 1000
  and 2000 and a timer that returns one millisecond early the second of three operations
  submitted back to back is dispatched 999 milliseconds after the first. The constructor
  accepts delays in either order; with 2000 and 1000 the random delay lies below
  \<open>minDelay\<close> and two dispatches are 1100 milliseconds apart, on punctual timers.
\<close>

theorem dispatch_gap_below_minDelay:
  "list_all (\<lambda>e. 0 \<le> random e \<and> random e < 1) earlyTicks \<and>
   map (ran :: (nat list, nat) dispatch \<Rightarrow> _) (fst (throttle (emit 1) earlyTicks (newRateLimiter 1000 2000) [] 5000))
     = [task (emit 1), task (emit 2), task (emit 3)] \<and>
   map dispatchedAt (fst (throttle (emit 1) earlyTicks (newRateLimiter 1000 2000) [] 5000))
     = [5000, 5999, 6999] \<and>
   list_all (\<lambda>e. 0 \<le> random e \<and> random e < 1 \<and> 0 \<le> drift e) ticks2 \<and>
   map dispatchedAt (fst (throttle (emit 1) ticks2 (newRateLimiter 2000 1000) [] 5000))
     = [5000, 6100]"
proof -
  have "list_all (\<lambda>e. 0 \<le> random e \<and> random e < 1) earlyTicks"
    by (simp add: earlyTicks_def)
  moreover have "map (ran :: (nat list, nat) dispatch \<Rightarrow> _) (fst (throttle (emit 1) earlyTicks (newRateLimiter 1000 2000) [] 5000))
     = [task (emit 1), task (emit 2), task (emit 3)]"
    by (simp add: throttle_def processQueue_def dispatchLoop.simps dispatchNext_def tickOf_def
        newRateLimiter_def Let_def earlyTicks_def split: prod.splits)
  moreover have "map dispatchedAt (fst (throttle (emit 1) earlyTicks (newRateLimiter 1000 2000) [] 5000))
     = [5000, 5999, 6999]"
    by (simp add: limiter_eval earlyTicks_def)
  moreover have "list_all (\<lambda>e. 0 \<le> random e \<and> random e < 1 \<and> 0 \<le> drift e) ticks2"
    by (simp add: ticks2_def)
  moreover have "map dispatchedAt (fst (throttle (emit 1) ticks2 (newRateLimiter 2000 1000) [] 5000))
     = [5000, 6100]"
    by (simp add: limiter_eval ticks2_def)
  ultimately show ?thesis
    by blast
qed

text \<open>
  C6, amended. An activation of a limiter that is not running dispatches the queued tasks
  and the arrivals in the order of submission, one at a time: each task is dispatched when
  the one before it has settled. When \<open>minDelay \<le> maxDelay\<close>, \<^verbatim>\<open>Math.random()\<close> lies in
  \<open>[0, 1)\<close> and no timer returns early, consecutive dispatch timestamps of the activation
  are at least \<open>minDelay\<close> apart, and the first of them is at least \<open>minDelay\<close> after
  \<open>lastRequestTime\<close>, which every dispatch sets; so the dispatches of two calls that are
  awaited one after the other are at least \<open>minDelay\<close> apart as well. For three operations
  submitted back to back to a new limiter with the delays 1000 and 2000, under the same
  conditions: \<open>t0 < t1 < t2\<close>, \<open>t1 - t0 \<ge> 1000\<close>, \<open>t2 - t1 \<ge> 1000\<close>, and each operation has
  settled when the next one is dispatched.
\<close>

theorem rateLimiter_fifo_paced:
  "(\<forall>env (rl :: ('s, 'a) rateLimiter) s now ds rl' s' now'.
      processQueue env rl s now = (ds, rl', s', now') \<and> \<not> running rl \<longrightarrow>
        map ran ds = queue rl @ map task (concat (map arrivals (take (length ds) env))) \<and>
        successively (\<lambda>a b. settledAt a \<le> dispatchedAt b) ds \<and>
        (\<forall>d \<in> set ds. dispatchedAt d \<le> settledAt d) \<and>
        queue rl' = [] \<and> \<not> running rl' \<and>
        minDelay rl' = minDelay rl \<and> maxDelay rl' = maxDelay rl \<and>
        lastRequestTime rl' = (if ds = [] then lastRequestTime rl else dispatchedAt (last ds))) \<and>
   (\<forall>env (rl :: ('s, 'a) rateLimiter) s now ds rl' s' now'.
      processQueue env rl s now = (ds, rl', s', now') \<and> \<not> running rl \<and>
      minDelay rl \<le> maxDelay rl \<and>
      (\<forall>e \<in> set env. 0 \<le> random e \<and> random e < 1 \<and> 0 \<le> drift e) \<longrightarrow>
        successively (\<lambda>a b. minDelay rl \<le> real_of_int (dispatchedAt b - dispatchedAt a)) ds \<and>
        (ds \<noteq> [] \<longrightarrow>
           real_of_int (lastRequestTime rl) + minDelay rl \<le> real_of_int (dispatchedAt (hd ds)))) \<and>
   (\<forall>(a :: ('s, 'a) operation) b env1 env2 rl s now ds1 rl1 s1 now1 later ds2 rl2 s2 now2.
      throttle a env1 rl s now = (ds1, rl1, s1, now1) \<and>
      throttle b env2 rl1 s1 later = (ds2, rl2, s2, now2) \<and>
      queue rl = [] \<and> \<not> running rl \<and> minDelay rl \<le> maxDelay rl \<and>
      (\<forall>e \<in> set env2. 0 \<le> random e \<and> random e < 1 \<and> 0 \<le> drift e) \<longrightarrow>
        ds1 \<noteq> [] \<and> ds2 \<noteq> [] \<and> ran (hd ds1) = task a \<and> ran (hd ds2) = task b \<and>
        minDelay rl \<le> real_of_int (dispatchedAt (hd ds2) - dispatchedAt (last ds1))) \<and>
   (\<forall>(a :: ('s, 'a) operation) b c e es s now.
      0 \<le> random e \<and> random e < 1 \<and> 0 \<le> drift e \<and> arrivals e = [b, c] \<and>
      (\<forall>e' \<in> set es. 0 \<le> random e' \<and> random e' < 1 \<and> 0 \<le> drift e' \<and> arrivals e' = []) \<longrightarrow>
        (\<exists>d0 d1 d2 rl' s' now'.
           throttle a (e # es) (newRateLimiter 1000 2000) s now = ([d0, d1, d2], rl', s', now') \<and>
           ran d0 = task a \<and> ran d1 = task b \<and> ran d2 = task c \<and>
           dispatchedAt d0 < dispatchedAt d1 \<and> dispatchedAt d1 < dispatchedAt d2 \<and>
           1000 \<le> dispatchedAt d1 - dispatchedAt d0 \<and>
           1000 \<le> dispatchedAt d2 - dispatchedAt d1 \<and>
           settledAt d0 \<le> dispatchedAt d1 \<and> dispatchedAt d1 \<le> settledAt d1 \<and>
           settledAt d1 \<le> dispatchedAt d2 \<and> dispatchedAt d2 \<le> settledAt d2))"
proof (intro conjI allI impI)
  fix env :: "('s, 'a) tick list" and rl rl' :: "('s, 'a) rateLimiter" and s s' :: 's
    and now now' :: int and ds :: "('s, 'a) dispatch list"
  assume "processQueue env rl s now = (ds, rl', s', now') \<and> \<not> running rl"
  then have run: "processQueue env rl s now = (ds, rl', s', now')" and idle: "\<not> running rl"
    by simp_all
  note facts = processQueue_fifo [OF run idle]
  show "map ran ds = queue rl @ map task (concat (map arrivals (take (length ds) env)))"
    by (rule facts(1))
  show "successively (\<lambda>a b. settledAt a \<le> dispatchedAt b) ds"
    by (rule facts(2))
  show "\<forall>d \<in> set ds. dispatchedAt d \<le> settledAt d"
    by (rule facts(3))
  show "queue rl' = []"
    by (rule facts(4))
  show "\<not> running rl'"
    by (rule facts(5))
  show "minDelay rl' = minDelay rl"
    by (rule facts(6))
  show "maxDelay rl' = maxDelay rl"
    by (rule facts(7))
  show "lastRequestTime rl' = (if ds = [] then lastRequestTime rl else dispatchedAt (last ds))"
    by (rule facts(8))
next
  fix env :: "('s, 'a) tick list" and rl rl' :: "('s, 'a) rateLimiter" and s s' :: 's
    and now now' :: int and ds :: "('s, 'a) dispatch list"
  assume a: "processQueue env rl s now = (ds, rl', s', now') \<and> \<not> running rl \<and>
      minDelay rl \<le> maxDelay rl \<and>
      (\<forall>e \<in> set env. 0 \<le> random e \<and> random e < 1 \<and> 0 \<le> drift e)"
  then have run: "processQueue env rl s now = (ds, rl', s', now')" and idle: "\<not> running rl"
    and order: "minDelay rl \<le> maxDelay rl"
    and ticks: "\<forall>e \<in> set env. 0 \<le> random e \<and> random e < 1 \<and> 0 \<le> drift e"
    by simp_all
  note facts = processQueue_paced [OF run idle order ticks]
  show "successively (\<lambda>a b. minDelay rl \<le> real_of_int (dispatchedAt b - dispatchedAt a)) ds"
    by (rule facts(1))
  assume "ds \<noteq> []"
  with facts(2)
  show "real_of_int (lastRequestTime rl) + minDelay rl \<le> real_of_int (dispatchedAt (hd ds))"
    by blast
next
  fix a b :: "('s, 'a) operation" and env1 env2 :: "('s, 'a) tick list"
    and rl rl1 rl2 :: "('s, 'a) rateLimiter" and s s1 s2 :: 's and now now1 later now2 :: int
    and ds1 ds2 :: "('s, 'a) dispatch list"
  assume h: "throttle a env1 rl s now = (ds1, rl1, s1, now1) \<and>
      throttle b env2 rl1 s1 later = (ds2, rl2, s2, now2) \<and>
      queue rl = [] \<and> \<not> running rl \<and> minDelay rl \<le> maxDelay rl \<and>
      (\<forall>e \<in> set env2. 0 \<le> random e \<and> random e < 1 \<and> 0 \<le> drift e)"
  then have "throttle a env1 rl s now = (ds1, rl1, s1, now1)"
    "throttle b env2 rl1 s1 later = (ds2, rl2, s2, now2)"
    "queue rl = []" "\<not> running rl" "minDelay rl \<le> maxDelay rl"
    "\<forall>e \<in> set env2. 0 \<le> random e \<and> random e < 1 \<and> 0 \<le> drift e"
    by simp_all
  then have all: "ds1 \<noteq> [] \<and> ds2 \<noteq> [] \<and> ran (hd ds1) = task a \<and> ran (hd ds2) = task b \<and>
         minDelay rl \<le> real_of_int (dispatchedAt (hd ds2) - dispatchedAt (last ds1))"
    by (rule awaited_calls_paced)
  from all show "ds1 \<noteq> []" by blast
  from all show "ds2 \<noteq> []" by blast
  from all show "ran (hd ds1) = task a" by blast
  from all show "ran (hd ds2) = task b" by blast
  from all show "minDelay rl \<le> real_of_int (dispatchedAt (hd ds2) - dispatchedAt (last ds1))"
    by blast
next
  fix a b c :: "('s, 'a) operation" and e :: "('s, 'a) tick" and es :: "('s, 'a) tick list"
    and s :: 's and now :: int
  assume h: "0 \<le> random e \<and> random e < 1 \<and> 0 \<le> drift e \<and> arrivals e = [b, c] \<and>
      (\<forall>e' \<in> set es. 0 \<le> random e' \<and> random e' < 1 \<and> 0 \<le> drift e' \<and> arrivals e' = [])"
  then have "0 \<le> random e \<and> random e < 1 \<and> 0 \<le> drift e" "arrivals e = [b, c]"
    "\<forall>e' \<in> set es. 0 \<le> random e' \<and> random e' < 1 \<and> 0 \<le> drift e' \<and> arrivals e' = []"
    by simp_all
  then show "\<exists>d0 d1 d2 rl' s' now'.
           throttle a (e # es) (newRateLimiter 1000 2000) s now = ([d0, d1, d2], rl', s', now') \<and>
           ran d0 = task a \<and> ran d1 = task b \<and> ran d2 = task c \<and>
           dispatchedAt d0 < dispatchedAt d1 \<and> dispatchedAt d1 < dispatchedAt d2 \<and>
           1000 \<le> dispatchedAt d1 - dispatchedAt d0 \<and>
           1000 \<le> dispatchedAt d2 - dispatchedAt d1 \<and>
           settledAt d0 \<le> dispatchedAt d1 \<and> dispatchedAt d1 \<le> settledAt d1 \<and>
           settledAt d1 \<le> dispatchedAt d2 \<and> dispatchedAt d2 \<le> settledAt d2"
    by (rule back_to_back_three)
qed

text \<open>
  Three operations submitted back to back at time 5000 to a new limiter with the delays
  1000 and 2000, on punctual timers: they are dispatched at 5000, 6000 and 7335, each after
  the one before has settled, and resolve in the order of submission. A fourth operation
  awaited afterwards is dispatched 1000 milliseconds after the third.
\<close>

theorem rateLimiter_fifo_paced_witness:
  "map dispatchedAt (fst (throttle (emit 1) ticks3 (newRateLimiter 1000 2000) [] 5000))
     = [5000, 6000, 7335] \<and>
   map settledAt (fst (throttle (emit 1) ticks3 (newRateLimiter 1000 2000) [] 5000))
     = [5040, 6010, 7340] \<and>
   map settlement (fst (throttle (emit 1) ticks3 (newRateLimiter 1000 2000) [] 5000))
     = [Resolved 1, Resolved 2, Resolved 3] \<and>
   fst (snd (snd (throttle (emit 1) ticks3 (newRateLimiter 1000 2000) [] 5000))) = [1, 2, 3] \<and>
   map dispatchedAt
     (fst (throttle (emit 4) []
            (fst (snd (throttle (emit 1) ticks3 (newRateLimiter 1000 2000) [] 5000)))
            [1, 2, 3] 7340))
     = [8335]"
proof -
  have hyp: "0 \<le> random (hd ticks3) \<and> random (hd ticks3) < 1 \<and> 0 \<le> drift (hd ticks3) \<and>
      arrivals (hd ticks3) = [emit 2, emit 3] \<and>
      (\<forall>e' \<in> set (tl ticks3). 0 \<le> random e' \<and> random e' < 1 \<and> 0 \<le> drift e' \<and> arrivals e' = [])"
    by (simp add: ticks3_def)
  have split: "ticks3 = hd ticks3 # tl ticks3"
    by (simp add: ticks3_def)
  note three = rateLimiter_fifo_paced [THEN conjunct2, THEN conjunct2, THEN conjunct2, rule_format,
      OF hyp, of "emit 1" "[]" 5000]
  from three
  have "length (fst (throttle (emit 1) ticks3 (newRateLimiter 1000 2000) [] 5000)) = 3"
    unfolding split [symmetric] by auto
  moreover have "map dispatchedAt (fst (throttle (emit 1) ticks3 (newRateLimiter 1000 2000) [] 5000))
     = [5000, 6000, 7335]"
    by (simp add: limiter_eval ticks3_def)
  moreover have "map settledAt (fst (throttle (emit 1) ticks3 (newRateLimiter 1000 2000) [] 5000))
     = [5040, 6010, 7340]"
    by (simp add: limiter_eval ticks3_def)
  moreover have "map settlement (fst (throttle (emit 1) ticks3 (newRateLimiter 1000 2000) [] 5000))
     = [Resolved 1, Resolved 2, Resolved 3]"
    by (simp add: limiter_eval ticks3_def)
  moreover have "fst (snd (snd (throttle (emit 1) ticks3 (newRateLimiter 1000 2000) [] 5000))) = [1, 2, 3]"
    by (simp add: limiter_eval ticks3_def)
  moreover have "map dispatchedAt
     (fst (throttle (emit 4) []
            (fst (snd (throttle (emit 1) ticks3 (newRateLimiter 1000 2000) [] 5000)))
            [1, 2, 3] 7340))
     = [8335]"
    by (simp add: limiter_eval ticks3_def quiet_def)
  ultimately show ?thesis
    by simp
qed

section \<open>Completeness under updates\<close>

lemma sameBacklog_refl: "sameBacklog db db"
  by (simp add: sameBacklog_def)

lemma sameBacklog_trans: "sameBacklog a b \<Longrightarrow> sameBacklog b c \<Longrightarrow> sameBacklog a c"
  by (simp add: sameBacklog_def)

lemma findOrCreate_same:
  "sameBacklog db (snd (findOrCreateLanguageDependence n db))"
  "sameBacklog db (snd (findOrCreateCategory n db))"
  "sameBacklog db (snd (findOrCreateMechanism n db))"
  "sameBacklog db (snd (findOrCreateFamily n db))"
  by (simp_all add: sameBacklog_def findOrCreateLanguageDependence_def findOrCreateCategory_def
        findOrCreateMechanism_def findOrCreateFamily_def split: prod.splits)

lemma lookupAll_same:
  assumes "\<And>n db. sameBacklog db (snd (f n db))"
  shows "sameBacklog db (snd (lookupAll broken f ns db))"
proof (induction ns arbitrary: db)
  case Nil
  then show ?case by (simp add: sameBacklog_refl)
next
  case (Cons n ns)
  show ?case
  proof (cases "broken n \<noteq> None")
    case True
    then show ?thesis
      using Cons.IH [of db] by simp
  next
    case False
    obtain i db1 where f: "f n db = (i, db1)"
      by (metis surj_pair)
    have "sameBacklog db db1"
      using assms [of db n] f by simp
    moreover have "sameBacklog db1 (snd (lookupAll broken f ns db1))"
      by (rule Cons.IH)
    ultimately have "sameBacklog db (snd (lookupAll broken f ns db1))"
      by (rule sameBacklog_trans)
    then show ?thesis
      using f False by (auto split: prod.splits)
  qed
qed

lemma fold_upsertLink_grows: "set rows \<subseteq> set (fold (upsertLink g) ids rows)"
proof (induction ids arbitrary: rows)
  case Nil
  then show ?case by simp
next
  case (Cons i ids)
  have "set rows \<subseteq> set (upsertLink g i rows)"
    by (auto simp: upsertLink_def)
  also have "\<dots> \<subseteq> set (fold (upsertLink g) ids (upsertLink g i rows))"
    by (rule Cons.IH)
  finally show ?case
    by simp
qed


lemma updateGame_missing:
  "gameId \<notin> set (map game_id (game db)) \<Longrightarrow>
   updateGame gameId data db = Inl (Error ''Record to update not found'')"
  by (simp add: updateGame_def)

lemma updateGame_found:
  "gameId \<in> set (map game_id (game db)) \<Longrightarrow>
   updateGame gameId data db =
     Inr (db\<lparr>game := map (\<lambda>g. if game_id g = gameId then data g else g) (game db)\<rparr>)"
  by (simp add: updateGame_def)

lemma backlog_updateGameWithCommunityData:
  "game (updateGameWithCommunityData gameId ps as db) = game db"
  "gameCategory (updateGameWithCommunityData gameId ps as db) = gameCategory db"
  "gameMechanism (updateGameWithCommunityData gameId ps as db) = gameMechanism db"
  "gameFamily (updateGameWithCommunityData gameId ps as db) = gameFamily db"
  by (simp_all add: updateGameWithCommunityData_def)

lemma updateGameWithAllDetails_cases:
  obtains
    (unwritten) err db4 where "\<not> commits fs gameId d db" and "sameBacklog db db4"
      and "updateGameWithAllDetails fs gameId d now db = (Some err, db4)"
  | (written) db' langId cs ms fms
    where "commits fs gameId d db"
      and "updateGameWithAllDetails fs gameId d now db = (communityFault fs, db')"
      and "game db' =
             map (\<lambda>g. if game_id g = gameId
                       then g\<lparr>game.year := details.year d,
                              game.minPlayers := details.minPlayers d,
                              game.maxPlayers := details.maxPlayers d,
                              game.minPlayingTime := details.minPlayingTime d,
                              game.maxPlayingTime := details.maxPlayingTime d,
                              game.weight := stored (details.weight d),
                              game.officialAge := details.officialAge d,
                              languageDependenceId := langId,
                              scrapedAt := now\<rparr>
                       else g) (game db)"
      and "gameCategory db' = fold (upsertLink gameId) cs (gameCategory db)"
      and "gameMechanism db' = fold (upsertLink gameId) ms (gameMechanism db)"
      and "gameFamily db' = fold (upsertLink gameId) fms (gameFamily db)"
proof -
  define stage1 where "stage1 =
    (case languageDependenceText d of
        None \<Rightarrow> (None, db)
      | Some text \<Rightarrow>
          if text = [] \<or> lookupFault fs text \<noteq> None then (None, db)
          else (case findOrCreateLanguageDependence text db of (i, db') \<Rightarrow> (Some i, db')))"
  obtain langId db1 where "stage1 = (langId, db1)"
    by (cases stage1)
  then have lang:
    "(case languageDependenceText d of
        None \<Rightarrow> (None, db)
      | Some text \<Rightarrow>
          if text = [] \<or> lookupFault fs text \<noteq> None then (None, db)
          else (case findOrCreateLanguageDependence text db of (i, db') \<Rightarrow> (Some i, db')))
     = (langId, db1)"
    by (simp only: stage1_def)
  have s1: "sameBacklog db db1"
  proof (cases "languageDependenceText d")
    case None
    then show ?thesis
      using lang by (simp add: sameBacklog_refl)
  next
    case (Some lt)
    show ?thesis
    proof (cases "lt = [] \<or> lookupFault fs lt \<noteq> None")
      case True
      then have "db1 = db"
        using lang Some by (simp split: if_splits)
      then show ?thesis
        by (simp add: sameBacklog_refl)
    next
      case False
      then have "db1 = snd (findOrCreateLanguageDependence lt db)"
        using lang Some by (simp split: prod.splits)
      then show ?thesis
        by (simp add: findOrCreate_same)
    qed
  qed
  obtain cs db2 where c: "lookupAll (lookupFault fs) findOrCreateCategory (categories d) db1 = (cs, db2)"
    by (cases "lookupAll (lookupFault fs) findOrCreateCategory (categories d) db1")
  obtain ms db3 where m: "lookupAll (lookupFault fs) findOrCreateMechanism (mechanisms d) db2 = (ms, db3)"
    by (cases "lookupAll (lookupFault fs) findOrCreateMechanism (mechanisms d) db2")
  obtain fms db4 where f: "lookupAll (lookupFault fs) findOrCreateFamily (families d) db3 = (fms, db4)"
    by (cases "lookupAll (lookupFault fs) findOrCreateFamily (families d) db3")
  have "sameBacklog db1 db2"
    using lookupAll_same [of findOrCreateCategory db1 "lookupFault fs" "categories d"] c
    by (simp add: findOrCreate_same)
  moreover have "sameBacklog db2 db3"
    using lookupAll_same [of findOrCreateMechanism db2 "lookupFault fs" "mechanisms d"] m
    by (simp add: findOrCreate_same)
  moreover have "sameBacklog db3 db4"
    using lookupAll_same [of findOrCreateFamily db3 "lookupFault fs" "families d"] f
    by (simp add: findOrCreate_same)
  ultimately have s4: "sameBacklog db db4"
    using s1 by (blast intro: sameBacklog_trans)
  then have same: "game db4 = game db" "gameCategory db4 = gameCategory db"
    "gameMechanism db4 = gameMechanism db" "gameFamily db4 = gameFamily db"
    by (simp_all add: sameBacklog_def)
  show ?thesis
  proof (cases "firstFault (lookupFault fs) (lookupNames d)")
    case (Some err)
    have "updateGameWithAllDetails fs gameId d now db = (Some err, db4)"
      by (simp only: updateGameWithAllDetails_def lang c m f prod.case Some option.case)
    moreover have "\<not> commits fs gameId d db"
      using Some by (simp add: commits_def)
    ultimately show ?thesis
      using s4 by (intro unwritten)
  next
    case None
    note looked = None
    show ?thesis
    proof (cases "writeFault fs")
      case (Some err)
      have "updateGameWithAllDetails fs gameId d now db = (Some err, db4)"
        by (simp only: updateGameWithAllDetails_def lang c m f prod.case looked Some option.case)
      moreover have "\<not> commits fs gameId d db"
        using Some by (simp add: commits_def)
      ultimately show ?thesis
        using s4 by (intro unwritten)
    next
      case None
      note begun = None
      show ?thesis
      proof (cases "gameId \<in> set (map game_id (game db))")
        case False
        then have "gameId \<notin> set (map game_id (game db4))"
          by (simp add: same(1))
        then have miss: "updateGame gameId data db4 = Inl (Error ''Record to update not found'')" for data
          by (rule updateGame_missing)
        have "updateGameWithAllDetails fs gameId d now db = (Some (Error ''Record to update not found''), db4)"
          by (simp only: updateGameWithAllDetails_def lang c m f prod.case looked begun option.case
              miss sum.case)
        moreover have "\<not> commits fs gameId d db"
          using False by (simp add: commits_def)
        ultimately show ?thesis
          using s4 by (intro unwritten)
      next
        case True
        let ?data = "\<lambda>g. g\<lparr>game.year := details.year d,
                                game.minPlayers := details.minPlayers d,
                                game.maxPlayers := details.maxPlayers d,
                                game.minPlayingTime := details.minPlayingTime d,
                                game.maxPlayingTime := details.maxPlayingTime d,
                                game.weight := stored (details.weight d),
                                game.officialAge := details.officialAge d,
                                languageDependenceId := langId,
                                scrapedAt := now\<rparr>"
        let ?db5 = "db4\<lparr>game := map (\<lambda>g. if game_id g = gameId then ?data g else g) (game db4)\<rparr>"
        let ?db6 = "?db5\<lparr>gameCategory := fold (upsertLink gameId) cs (gameCategory ?db5),
                  gameMechanism := fold (upsertLink gameId) ms (gameMechanism ?db5),
                  gameFamily := fold (upsertLink gameId) fms (gameFamily ?db5)\<rparr>"
        let ?db7 = "updateGameWithCommunityData gameId (communityPlayerRatings d) (communityAgeRatings d) ?db6"
        have ok: "commits fs gameId d db"
          using True looked begun by (simp add: commits_def)
        have "gameId \<in> set (map game_id (game db4))"
          using True by (simp add: same(1))
        then have upd: "updateGame gameId ?data db4 = Inr ?db5"
          by (rule updateGame_found)
        have r: "updateGameWithAllDetails fs gameId d now db =
            (case communityFault fs of Some err \<Rightarrow> (Some err, ?db6) | None \<Rightarrow> (None, ?db7))"
          by (simp only: updateGameWithAllDetails_def lang c m f prod.case looked begun option.case
              upd sum.case Let_def)
        have g6: "game ?db6 = map (\<lambda>g. if game_id g = gameId then ?data g else g) (game db)"
          by (simp add: same)
        have l6: "gameCategory ?db6 = fold (upsertLink gameId) cs (gameCategory db)"
          "gameMechanism ?db6 = fold (upsertLink gameId) ms (gameMechanism db)"
          "gameFamily ?db6 = fold (upsertLink gameId) fms (gameFamily db)"
          by (simp_all add: same)
        have g7: "game ?db7 = map (\<lambda>g. if game_id g = gameId then ?data g else g) (game db)"
          unfolding backlog_updateGameWithCommunityData by (rule g6)
        have l7: "gameCategory ?db7 = fold (upsertLink gameId) cs (gameCategory db)"
          "gameMechanism ?db7 = fold (upsertLink gameId) ms (gameMechanism db)"
          "gameFamily ?db7 = fold (upsertLink gameId) fms (gameFamily db)"
          unfolding backlog_updateGameWithCommunityData by (rule l6)+
        show ?thesis
        proof (cases "communityFault fs")
          case None
          then have "updateGameWithAllDetails fs gameId d now db = (communityFault fs, ?db7)"
            using r by simp
          with ok show ?thesis
            using g7 l7 by (rule written)
        next
          case (Some err)
          then have "updateGameWithAllDetails fs gameId d now db = (communityFault fs, ?db6)"
            using r by simp
          with ok show ?thesis
            using g6 l6 by (rule written)
        qed
      qed
    qed
  qed
qed

lemma updateGameWithAllDetails_result:
  assumes "updateGameWithAllDetails fs gameId d now db = (r, db')"
  shows "r = None \<longleftrightarrow> commits fs gameId d db \<and> communityFault fs = None"
proof (cases rule: updateGameWithAllDetails_cases [where fs = fs and gameId = gameId and d = d and db = db and now = now])
  case (unwritten err db4)
  then show ?thesis
    using assms by simp
next
  case (written db1 langId cs ms fms)
  then show ?thesis
    using assms by simp
qed

lemma updateGameWithAllDetails_rows:
  assumes "updateGameWithAllDetails fs gameId d now db = (r, db')"
  shows "map game_id (game db') = map game_id (game db)"
    and "map processingBy (game db') = map processingBy (game db)"
    and "map processingAt (game db') = map processingAt (game db)"
    and "map game.weight (game db') =
           map (\<lambda>g. if commits fs gameId d db \<and> game_id g = gameId
                     then stored (details.weight d) else game.weight g)
             (game db)"
proof -
  have "map game_id (game db') = map game_id (game db) \<and>
        map processingBy (game db') = map processingBy (game db) \<and>
        map processingAt (game db') = map processingAt (game db) \<and>
        map game.weight (game db') =
           map (\<lambda>g. if commits fs gameId d db \<and> game_id g = gameId
                     then stored (details.weight d) else game.weight g)
             (game db)"
  proof (cases rule: updateGameWithAllDetails_cases [where fs = fs and gameId = gameId and d = d and db = db and now = now])
    case (unwritten err db4)
    then have "game db' = game db"
      using assms by (simp add: sameBacklog_def)
    then show ?thesis
      using unwritten(1) by simp
  next
    case (written db1 langId cs ms fms)
    then have r: "db' = db1"
      using assms by simp
    define upd where "upd = (\<lambda>g :: game. if game_id g = gameId
                       then g\<lparr>game.year := details.year d,
                              game.minPlayers := details.minPlayers d,
                              game.maxPlayers := details.maxPlayers d,
                              game.minPlayingTime := details.minPlayingTime d,
                              game.maxPlayingTime := details.maxPlayingTime d,
                              game.weight := stored (details.weight d),
                              game.officialAge := details.officialAge d,
                              languageDependenceId := langId,
                              scrapedAt := now\<rparr>
                       else g)"
    have rows: "game db' = map upd (game db)"
      unfolding upd_def r by (rule written(3))
    have "game_id (upd g) = game_id g" "processingBy (upd g) = processingBy g"
      "processingAt (upd g) = processingAt g"
      "game.weight (upd g) = (if game_id g = gameId then stored (details.weight d) else game.weight g)" for g
      by (simp_all add: upd_def)
    then show ?thesis
      by (simp add: rows written(1) comp_def)
  qed
  then show "map game_id (game db') = map game_id (game db)"
    and "map processingBy (game db') = map processingBy (game db)"
    and "map processingAt (game db') = map processingAt (game db)"
    and "map game.weight (game db') =
           map (\<lambda>g. if commits fs gameId d db \<and> game_id g = gameId
                     then stored (details.weight d) else game.weight g)
             (game db)"
    by simp_all
qed

lemma updateGameWithAllDetails_links:
  assumes "updateGameWithAllDetails fs gameId d now db = (r, db')"
  shows "set (gameCategory db) \<subseteq> set (gameCategory db')"
    and "set (gameMechanism db) \<subseteq> set (gameMechanism db')"
    and "set (gameFamily db) \<subseteq> set (gameFamily db')"
proof -
  have "set (gameCategory db) \<subseteq> set (gameCategory db') \<and>
        set (gameMechanism db) \<subseteq> set (gameMechanism db') \<and>
        set (gameFamily db) \<subseteq> set (gameFamily db')"
  proof (cases rule: updateGameWithAllDetails_cases [where fs = fs and gameId = gameId and d = d and db = db and now = now])
    case (unwritten err db4)
    then show ?thesis
      using assms by (simp add: sameBacklog_def)
  next
    case (written db1 langId cs ms fms)
    then have "db' = db1"
      using assms by simp
    then show ?thesis
      using written(4,5,6) by (simp add: fold_upsertLink_grows)
  qed
  then show "set (gameCategory db) \<subseteq> set (gameCategory db')"
    and "set (gameMechanism db) \<subseteq> set (gameMechanism db')"
    and "set (gameFamily db) \<subseteq> set (gameFamily db')"
    by simp_all
qed

lemma claim_takes_all:
  assumes "g \<in> set (game db)" and "available db g" and "length (game db) \<le> n"
  shows "game_id g \<in> set (map game_id (fst (claimGamesForProcessing w n now db)))"
proof -
  have "length (sort_key game_id (filter (available db) (game db))) \<le> n"
    using assms(3) length_filter_le [of "available db" "game db"] by (simp del: length_filter_le)
  then have "take n (sort_key game_id (filter (available db) (game db)))
      = sort_key game_id (filter (available db) (game db))"
    by (rule take_all)
  then have "map game_id (fst (claimGamesForProcessing w n now db))
      = map game_id (sort_key game_id (filter (available db) (game db)))"
    by (simp add: claim_batch game_id_truncate)
  moreover have "g \<in> set (sort_key game_id (filter (available db) (game db)))"
    using assms(1,2) by simp
  ultimately show ?thesis
    by simp
qed

text \<open>
  C4, as stated, says that no update makes a complete item pending again. The second step
  writes the weight it is given, and a page from which no weight could be read gives null:
  the update of the complete game 4 with such details succeeds, the game is pending
  afterwards and the next claim selects it. The same happens when the weight read is
  \<^verbatim>\<open>NaN\<close>.
\<close>

theorem completeness_lost_by_null_weight:
  "\<not> withoutDetails completeBacklog (hd (game completeBacklog)) \<and>
   fst (updateGameWithAllDetails noFaults 4 nothingExtracted 50 completeBacklog) = None \<and>
   withoutDetails (snd (updateGameWithAllDetails noFaults 4 nothingExtracted 50 completeBacklog))
     (hd (game (snd (updateGameWithAllDetails noFaults 4 nothingExtracted 50 completeBacklog)))) \<and>
   map game_id (fst (claimGamesForProcessing ''worker-1'' 5 60
      (snd (updateGameWithAllDetails noFaults 4 nothingExtracted 50 completeBacklog)))) = [4] \<and>
   fst (updateGameWithAllDetails noFaults 4 (nothingExtracted\<lparr>weight := Some NaN\<rparr>) 50 completeBacklog)
     = None \<and>
   map game_id (fst (claimGamesForProcessing ''worker-1'' 5 60
      (snd (updateGameWithAllDetails noFaults 4 (nothingExtracted\<lparr>weight := Some NaN\<rparr>) 50
              completeBacklog)))) = [4]"
proof -
  have before: "\<not> withoutDetails completeBacklog (hd (game completeBacklog))"
    by (simp add: completeBacklog_def mkDb_def mkGame_def withoutDetails_def)
  have upd: "updateGameWithAllDetails noFaults 4 nothingExtracted 50 completeBacklog =
      (None, mkDb [(mkGame 4 None None None)\<lparr>scrapedAt := 50\<rparr>] [(4, 7)])"
    by (simp add: updateGameWithAllDetails_def nothingExtracted_def completeBacklog_def
          mkDb_def mkGame_def updateGame_def updateGameWithCommunityData_def noFaults_def
          lookupNames_def stored_def)
  have updNaN: "updateGameWithAllDetails noFaults 4 (nothingExtracted\<lparr>weight := Some NaN\<rparr>) 50 completeBacklog =
      (None, mkDb [(mkGame 4 None None None)\<lparr>scrapedAt := 50\<rparr>] [(4, 7)])"
    by (simp add: updateGameWithAllDetails_def nothingExtracted_def completeBacklog_def
          mkDb_def mkGame_def updateGame_def updateGameWithCommunityData_def noFaults_def
          lookupNames_def stored_def)
  have after: "withoutDetails (mkDb [(mkGame 4 None None None)\<lparr>scrapedAt := 50\<rparr>] [(4, 7)])
                 (hd (game (mkDb [(mkGame 4 None None None)\<lparr>scrapedAt := 50\<rparr>] [(4, 7)])))"
    by (simp add: mkDb_def mkGame_def withoutDetails_def)
  have claimed: "map game_id (fst (claimGamesForProcessing ''worker-1'' 5 60
      (mkDb [(mkGame 4 None None None)\<lparr>scrapedAt := 50\<rparr>] [(4, 7)]))) = [4]"
    by (simp add: claim_batch game_id_truncate available_def withoutDetails_def mkDb_def mkGame_def)
  from before after claimed show ?thesis
    unfolding upd updNaN by simp
qed

text \<open>
  C4, amended. A call of \<open>updateGameWithAllDetails\<close>, whether it succeeds or throws,
  keeps the rows and their identifiers and never removes a relationship link. An item that
  is complete remains complete, and no later claim selects it, whenever the call is for
  another item, or the weight it stores is not null (a weight that is null or \<^verbatim>\<open>NaN\<close> is
  stored as null), or the call throws before its second step is committed. A call for the
  item itself whose second step is committed and stores a null weight leaves the item
  pending, whatever it was before; if the item is not leased, a claim of at least as many
  items as the table has rows selects it.
\<close>

theorem completeness_kept_by_update:
  assumes upd: "updateGameWithAllDetails fs gameId d now db = (r, db')"
    and row: "i < length (game db)"
    and ids: "distinct (map game_id (game db))"
  shows "length (game db') = length (game db) \<and>
         game_id (game db' ! i) = game_id (game db ! i) \<and>
         set (gameCategory db) \<subseteq> set (gameCategory db') \<and>
         set (gameMechanism db) \<subseteq> set (gameMechanism db') \<and>
         set (gameFamily db) \<subseteq> set (gameFamily db') \<and>
         (\<not> withoutDetails db (game db ! i) \<and>
          (game_id (game db ! i) \<noteq> gameId \<or> stored (details.weight d) \<noteq> None \<or>
           \<not> commits fs gameId d db) \<longrightarrow>
            \<not> withoutDetails db' (game db' ! i) \<and>
            game_id (game db ! i) \<notin> set (map game_id (fst (claimGamesForProcessing w n t db')))) \<and>
         (game_id (game db ! i) = gameId \<and> stored (details.weight d) = None \<and>
          commits fs gameId d db \<longrightarrow>
            withoutDetails db' (game db' ! i) \<and>
            (processingBy (game db ! i) = None \<and> length (game db) \<le> n \<longrightarrow>
               game_id (game db ! i) \<in> set (map game_id (fst (claimGamesForProcessing w n t db')))))"
proof -
  note rows = updateGameWithAllDetails_rows [OF upd]
  note links = updateGameWithAllDetails_links [OF upd]
  have len: "length (game db') = length (game db)"
    using rows(1) by (rule map_eq_imp_length_eq)
  have "map game_id (game db') ! i = map game_id (game db) ! i"
    by (simp only: rows(1))
  then have same_id: "game_id (game db' ! i) = game_id (game db ! i)"
    using row len by simp
  have "map processingBy (game db') ! i = map processingBy (game db) ! i"
    by (simp only: rows(2))
  then have same_owner: "processingBy (game db' ! i) = processingBy (game db ! i)"
    using row len by simp
  have "map game.weight (game db') ! i =
        map (\<lambda>g. if commits fs gameId d db \<and> game_id g = gameId
                  then stored (details.weight d) else game.weight g) (game db) ! i"
    by (simp only: rows(4))
  then have wt: "game.weight (game db' ! i) =
      (if commits fs gameId d db \<and> game_id (game db ! i) = gameId then stored (details.weight d)
       else game.weight (game db ! i))"
    using row len by simp
  have mem: "game db' ! i \<in> set (game db')"
    using row len by simp
  have ids': "distinct (map game_id (game db'))"
    using ids by (simp only: rows(1))
  have kept: "\<not> withoutDetails db' (game db' ! i) \<and>
      game_id (game db ! i) \<notin> set (map game_id (fst (claimGamesForProcessing w n t db')))"
    if complete: "\<not> withoutDetails db (game db ! i)"
      and nonnull: "game_id (game db ! i) \<noteq> gameId \<or> stored (details.weight d) \<noteq> None \<or>
           \<not> commits fs gameId d db"
  proof -
    have "game.weight (game db ! i) \<noteq> None"
      using complete by (simp add: withoutDetails_def)
    with nonnull wt have weight': "game.weight (game db' ! i) \<noteq> None"
      by auto
    have "game_id (game db ! i) \<in> set (map fst (gameCategory db)) \<or>
          game_id (game db ! i) \<in> set (map fst (gameMechanism db)) \<or>
          game_id (game db ! i) \<in> set (map fst (gameFamily db))"
      using complete by (auto simp: withoutDetails_def)
    with links have "game_id (game db ! i) \<in> set (map fst (gameCategory db')) \<or>
          game_id (game db ! i) \<in> set (map fst (gameMechanism db')) \<or>
          game_id (game db ! i) \<in> set (map fst (gameFamily db'))"
      by auto
    with weight' same_id have full: "\<not> withoutDetails db' (game db' ! i)"
      by (auto simp: withoutDetails_def)
    have "game_id (game db' ! i) \<notin> set (map game_id (fst (claimGamesForProcessing w n t db')))"
    proof
      assume "game_id (game db' ! i) \<in> set (map game_id (fst (claimGamesForProcessing w n t db')))"
      then have "game_id (game db' ! i)
          \<in> set (map game_id (take n (sort_key game_id (filter (available db') (game db')))))"
        by (simp add: claim_batch game_id_truncate)
      with ids' mem have "available db' (game db' ! i)"
        by (rule selected_by_id)
      with full show False
        by (simp add: available_def)
    qed
    with full same_id show ?thesis
      by simp
  qed
  have lost: "withoutDetails db' (game db' ! i) \<and>
      (processingBy (game db ! i) = None \<and> length (game db) \<le> n \<longrightarrow>
         game_id (game db ! i) \<in> set (map game_id (fst (claimGamesForProcessing w n t db'))))"
    if own: "game_id (game db ! i) = gameId" and null: "stored (details.weight d) = None"
      and ok: "commits fs gameId d db"
  proof -
    have "game.weight (game db' ! i) = None"
      using wt own null ok by simp
    then have pending: "withoutDetails db' (game db' ! i)"
      by (simp add: withoutDetails_def)
    have "game_id (game db ! i) \<in> set (map game_id (fst (claimGamesForProcessing w n t db')))"
      if free: "processingBy (game db ! i) = None" and all: "length (game db) \<le> n"
    proof -
      have "available db' (game db' ! i)"
        using pending free same_owner by (simp add: available_def)
      with mem have "game_id (game db' ! i) \<in> set (map game_id (fst (claimGamesForProcessing w n t db')))"
        using all len by (intro claim_takes_all) simp_all
      then show ?thesis
        by (simp only: same_id)
    qed
    with pending show ?thesis
      by blast
  qed
  have c6: "\<not> withoutDetails db (game db ! i) \<and>
          (game_id (game db ! i) \<noteq> gameId \<or> stored (details.weight d) \<noteq> None \<or>
           \<not> commits fs gameId d db) \<longrightarrow>
            \<not> withoutDetails db' (game db' ! i) \<and>
            game_id (game db ! i) \<notin> set (map game_id (fst (claimGamesForProcessing w n t db')))"
    using kept by blast
  have c7: "game_id (game db ! i) = gameId \<and> stored (details.weight d) = None \<and>
          commits fs gameId d db \<longrightarrow>
            withoutDetails db' (game db' ! i) \<and>
            (processingBy (game db ! i) = None \<and> length (game db) \<le> n \<longrightarrow>
               game_id (game db ! i) \<in> set (map game_id (fst (claimGamesForProcessing w n t db'))))"
    using lost by blast
  show ?thesis
    by (intro conjI len same_id links c6 c7)
qed

text \<open>
  On the store with the complete game 4: an update that stores the weight 3 leaves it
  complete, and the next claim returns nothing; so does an update with a null weight whose
  transaction throws. An update with a null weight that is committed makes it pending, and
  a claim selects it.
\<close>

theorem completeness_kept_by_update_witness:
  "distinct (map game_id (game completeBacklog)) \<and>
   \<not> withoutDetails completeBacklog (game completeBacklog ! 0) \<and>
   fst (updateGameWithAllDetails noFaults 4 (nothingExtracted\<lparr>weight := Some (Num 3)\<rparr>) 50 completeBacklog)
     = None \<and>
   \<not> withoutDetails
       (snd (updateGameWithAllDetails noFaults 4 (nothingExtracted\<lparr>weight := Some (Num 3)\<rparr>) 50 completeBacklog))
       (game (snd (updateGameWithAllDetails noFaults 4 (nothingExtracted\<lparr>weight := Some (Num 3)\<rparr>) 50
                completeBacklog)) ! 0) \<and>
   fst (claimGamesForProcessing ''worker-1'' 5 60
      (snd (updateGameWithAllDetails noFaults 4 (nothingExtracted\<lparr>weight := Some (Num 3)\<rparr>) 50
              completeBacklog))) = [] \<and>
   fst (updateGameWithAllDetails (noFaults\<lparr>writeFault := Some (Error ''locked'')\<rparr>) 4 nothingExtracted 50
          completeBacklog) = Some (Error ''locked'') \<and>
   \<not> withoutDetails
       (snd (updateGameWithAllDetails (noFaults\<lparr>writeFault := Some (Error ''locked'')\<rparr>) 4 nothingExtracted 50
               completeBacklog))
       (game (snd (updateGameWithAllDetails (noFaults\<lparr>writeFault := Some (Error ''locked'')\<rparr>) 4
                nothingExtracted 50 completeBacklog)) ! 0) \<and>
   commits noFaults 4 nothingExtracted completeBacklog \<and>
   withoutDetails (snd (updateGameWithAllDetails noFaults 4 nothingExtracted 50 completeBacklog))
     (game (snd (updateGameWithAllDetails noFaults 4 nothingExtracted 50 completeBacklog)) ! 0) \<and>
   4 \<in> set (map game_id (fst (claimGamesForProcessing ''worker-1'' 5 60
      (snd (updateGameWithAllDetails noFaults 4 nothingExtracted 50 completeBacklog)))))"
proof -
  let ?d = "nothingExtracted\<lparr>weight := Some (Num 3)\<rparr>"
  let ?locked = "noFaults\<lparr>writeFault := Some (Error ''locked'')\<rparr>"
  let ?db' = "mkDb [(mkGame 4 (Some 3) None None)\<lparr>scrapedAt := 50\<rparr>] [(4, 7)]"
  have upd: "updateGameWithAllDetails noFaults 4 ?d 50 completeBacklog = (None, ?db')"
    by (simp add: updateGameWithAllDetails_def nothingExtracted_def completeBacklog_def
          mkDb_def mkGame_def updateGame_def updateGameWithCommunityData_def noFaults_def
          lookupNames_def stored_def)
  have locked: "updateGameWithAllDetails ?locked 4 nothingExtracted 50 completeBacklog
      = (Some (Error ''locked''), completeBacklog)"
    by (simp add: updateGameWithAllDetails_def nothingExtracted_def noFaults_def lookupNames_def)
  have null: "updateGameWithAllDetails noFaults 4 nothingExtracted 50 completeBacklog
      = (fst (updateGameWithAllDetails noFaults 4 nothingExtracted 50 completeBacklog),
         snd (updateGameWithAllDetails noFaults 4 nothingExtracted 50 completeBacklog))"
    by simp
  have row: "0 < length (game completeBacklog)"
    and ids: "distinct (map game_id (game completeBacklog))"
    and complete: "\<not> withoutDetails completeBacklog (game completeBacklog ! 0)"
    and own: "game_id (game completeBacklog ! 0) = 4"
    and free: "processingBy (game completeBacklog ! 0) = None"
    and small: "length (game completeBacklog) \<le> 5"
    by (simp_all add: completeBacklog_def mkDb_def mkGame_def withoutDetails_def)
  have stores: "stored (details.weight ?d) \<noteq> None" "stored (details.weight nothingExtracted) = None"
    by (simp_all add: stored_def nothingExtracted_def)
  have ok: "commits noFaults 4 nothingExtracted completeBacklog"
    by (simp add: commits_def noFaults_def lookupNames_def nothingExtracted_def
        completeBacklog_def mkDb_def mkGame_def)
  have no: "\<not> commits ?locked 4 nothingExtracted completeBacklog"
    by (simp add: commits_def)
  have kept: "\<not> withoutDetails ?db' (game ?db' ! 0)"
    using completeness_kept_by_update [OF upd row ids] complete stores(1) by blast
  have kept_locked: "\<not> withoutDetails completeBacklog (game completeBacklog ! 0)"
    using completeness_kept_by_update [OF locked row ids] complete no by blast
  have lost: "withoutDetails (snd (updateGameWithAllDetails noFaults 4 nothingExtracted 50 completeBacklog))
     (game (snd (updateGameWithAllDetails noFaults 4 nothingExtracted 50 completeBacklog)) ! 0)"
    and again: "4 \<in> set (map game_id (fst (claimGamesForProcessing ''worker-1'' 5 60
      (snd (updateGameWithAllDetails noFaults 4 nothingExtracted 50 completeBacklog)))))"
    using completeness_kept_by_update [OF null row ids, of "''worker-1''" 5 60] own stores(2) ok free small
    by simp_all
  have "fst (claimGamesForProcessing ''worker-1'' 5 60 ?db') = []"
    by (simp add: claim_batch available_def withoutDetails_def mkDb_def mkGame_def)
  with ids complete kept kept_locked ok lost again show ?thesis
    unfolding upd locked by simp
qed

section \<open>Failures inside a batch\<close>

subsection \<open>One attempt\<close>

lemma fold_upsertLink_only:
  "set (fold (upsertLink g) ids rows) \<subseteq> set rows \<union> {g} \<times> UNIV"
proof (induction ids arbitrary: rows)
  case Nil
  then show ?case by simp
next
  case (Cons i ids)
  have "set (fold (upsertLink g) ids (upsertLink g i rows)) \<subseteq> set (upsertLink g i rows) \<union> {g} \<times> UNIV"
    by (rule Cons.IH)
  also have "\<dots> \<subseteq> set rows \<union> {g} \<times> UNIV"
    by (auto simp: upsertLink_def)
  finally show ?case
    by simp
qed

lemma fold_upsertLink_other:
  assumes "i \<noteq> g"
  shows "i \<in> set (map fst (fold (upsertLink g) ids rows)) \<longleftrightarrow> i \<in> set (map fst rows)"
proof
  assume "i \<in> set (map fst (fold (upsertLink g) ids rows))"
  then obtain c where "(i, c) \<in> set (fold (upsertLink g) ids rows)"
    by auto
  with fold_upsertLink_only [of g ids rows] assms have "(i, c) \<in> set rows"
    by auto
  then show "i \<in> set (map fst rows)"
    by force
next
  assume "i \<in> set (map fst rows)"
  then obtain c where "(i, c) \<in> set rows"
    by auto
  with fold_upsertLink_grows [of rows g ids] have "(i, c) \<in> set (fold (upsertLink g) ids rows)"
    by auto
  then show "i \<in> set (map fst (fold (upsertLink g) ids rows))"
    by force
qed

lemma sameBacklog_withoutDetails:
  assumes "sameBacklog db db'"
  shows "withoutDetails db' (game db' ! k) = withoutDetails db (game db ! k)"
  using assms by (simp add: sameBacklog_def withoutDetails_def)

lemma updateGameWithAllDetails_uncommitted:
  assumes "updateGameWithAllDetails fs gameId d now db = (r, db')"
    and "\<not> commits fs gameId d db"
  shows "sameBacklog db db'"
proof (cases rule: updateGameWithAllDetails_cases [where fs = fs and gameId = gameId and d = d and db = db and now = now])
  case (unwritten err db4)
  then show ?thesis
    using assms by simp
next
  case (written db1 langId cs ms fms)
  then show ?thesis
    using assms by simp
qed

lemma updateGameWithAllDetails_picks:
  assumes "updateGameWithAllDetails fs gameId d now db = (r, db')"
  shows "map game_pick.truncate (game db') = map game_pick.truncate (game db)"
proof (cases rule: updateGameWithAllDetails_cases [where fs = fs and gameId = gameId and d = d and db = db and now = now])
  case (unwritten err db4)
  then show ?thesis
    using assms by (simp add: sameBacklog_def)
next
  case (written db1 langId cs ms fms)
  then have r: "db' = db1"
    using assms by simp
  define upd where "upd = (\<lambda>g :: game. if game_id g = gameId
                       then g\<lparr>game.year := details.year d,
                              game.minPlayers := details.minPlayers d,
                              game.maxPlayers := details.maxPlayers d,
                              game.minPlayingTime := details.minPlayingTime d,
                              game.maxPlayingTime := details.maxPlayingTime d,
                              game.weight := stored (details.weight d),
                              game.officialAge := details.officialAge d,
                              languageDependenceId := langId,
                              scrapedAt := now\<rparr>
                       else g)"
  have rows: "game db' = map upd (game db)"
    unfolding upd_def r by (rule written(3))
  have "game_pick.truncate (upd g) = game_pick.truncate g" for g
    by (simp add: upd_def game_pick.truncate_def)
  then show ?thesis
    by (simp add: rows comp_def)
qed

lemma updateGameWithAllDetails_other:
  assumes upd: "updateGameWithAllDetails fs gameId d now db = (r, db')"
    and k: "k < length (game db)" and other: "game_id (game db ! k) \<noteq> gameId"
  shows "withoutDetails db' (game db' ! k) = withoutDetails db (game db ! k)"
proof -
  note rows = updateGameWithAllDetails_rows [OF upd]
  have len: "length (game db') = length (game db)"
    using rows(1) by (rule map_eq_imp_length_eq)
  have "map game_id (game db') ! k = map game_id (game db) ! k"
    by (simp only: rows(1))
  then have same_id: "game_id (game db' ! k) = game_id (game db ! k)"
    using k len by simp
  have "map game.weight (game db') ! k =
        map (\<lambda>g. if commits fs gameId d db \<and> game_id g = gameId
                  then stored (details.weight d) else game.weight g)
          (game db) ! k"
    by (simp only: rows(4))
  then have wt: "game.weight (game db' ! k) = game.weight (game db ! k)"
    using k len other by simp
  have "(game_id (game db ! k) \<in> set (map fst (gameCategory db'))
                 \<longleftrightarrow> game_id (game db ! k) \<in> set (map fst (gameCategory db))) \<and>
    (game_id (game db ! k) \<in> set (map fst (gameMechanism db'))
                 \<longleftrightarrow> game_id (game db ! k) \<in> set (map fst (gameMechanism db))) \<and>
    (game_id (game db ! k) \<in> set (map fst (gameFamily db'))
                 \<longleftrightarrow> game_id (game db ! k) \<in> set (map fst (gameFamily db)))"
  proof (cases rule: updateGameWithAllDetails_cases [where fs = fs and gameId = gameId and d = d and db = db and now = now])
    case (unwritten err db4)
    then show ?thesis
      using upd by (simp add: sameBacklog_def)
  next
    case (written db1 langId cs ms fms)
    then have "db' = db1"
      using upd by simp
    then show ?thesis
      using written(4,5,6) by (simp add: fold_upsertLink_other [OF other] del: set_map)
  qed
  then have links: "game_id (game db ! k) \<in> set (map fst (gameCategory db'))
                 \<longleftrightarrow> game_id (game db ! k) \<in> set (map fst (gameCategory db))"
    "game_id (game db ! k) \<in> set (map fst (gameMechanism db'))
                 \<longleftrightarrow> game_id (game db ! k) \<in> set (map fst (gameMechanism db))"
    "game_id (game db ! k) \<in> set (map fst (gameFamily db'))
                 \<longleftrightarrow> game_id (game db ! k) \<in> set (map fst (gameFamily db))"
    by blast+
  show ?thesis
    unfolding withoutDetails_def same_id wt links ..
qed

lemma scrapeGameDetailPage_cases:
  obtains (extraction) err where "extractor sc p = Inl err"
      and "scrapeGameDetailPage sc now p db = (Inl err, db)"
  | (persistence) d r db' where "extractor sc p = Inr d"
      and "updateGameWithAllDetails (storeFaults sc p) (game_id p) d now db = (r, db')"
      and "scrapeGameDetailPage sc now p db = ((case r of Some err \<Rightarrow> Inl err | None \<Rightarrow> Inr ()), db')"
proof (cases "extractor sc p")
  case (Inl err)
  then have "scrapeGameDetailPage sc now p db = (Inl err, db)"
    by (simp add: scrapeGameDetailPage_def)
  with Inl show ?thesis
    by (rule extraction)
next
  case (Inr d)
  obtain r db' where upd: "updateGameWithAllDetails (storeFaults sc p) (game_id p) d now db = (r, db')"
    by (cases "updateGameWithAllDetails (storeFaults sc p) (game_id p) d now db")
  have "scrapeGameDetailPage sc now p db = ((case r of Some err \<Rightarrow> Inl err | None \<Rightarrow> Inr ()), db')"
    by (simp add: scrapeGameDetailPage_def Inr upd split: option.splits)
  with Inr upd show ?thesis
    by (rule persistence)
qed

lemma scrapeGameDetailPage_rows:
  assumes "scrapeGameDetailPage sc now p db = (res, db')"
  shows "map game_id (game db') = map game_id (game db)"
    and "map processingBy (game db') = map processingBy (game db)"
    and "map processingAt (game db') = map processingAt (game db)"
    and "map game_pick.truncate (game db') = map game_pick.truncate (game db)"
proof -
  have "map game_id (game db') = map game_id (game db) \<and>
    map processingBy (game db') = map processingBy (game db) \<and>
    map processingAt (game db') = map processingAt (game db) \<and>
    map game_pick.truncate (game db') = map game_pick.truncate (game db)"
  proof (cases rule: scrapeGameDetailPage_cases [where sc = sc and p = p and now = now and db = db])
    case (extraction err)
    then show ?thesis
      using assms by simp
  next
    case (persistence d r db1)
    then have "db' = db1"
      using assms by simp
    then show ?thesis
      using updateGameWithAllDetails_rows(1,2,3) [OF persistence(2)]
        updateGameWithAllDetails_picks [OF persistence(2)]
      by simp
  qed
  then show "map game_id (game db') = map game_id (game db)"
    and "map processingBy (game db') = map processingBy (game db)"
    and "map processingAt (game db') = map processingAt (game db)"
    and "map game_pick.truncate (game db') = map game_pick.truncate (game db)"
    by simp_all
qed

lemma scrapeGameDetailPage_outcome:
  assumes run: "scrapeGameDetailPage sc now p db = (res, db')"
  shows "(res = Inr () \<longleftrightarrow>
            mayCommit sc p \<and> game_id p \<in> set (map game_id (game db)) \<and>
            communityFault (storeFaults sc p) = None) \<and>
         (\<not> (mayCommit sc p \<and> game_id p \<in> set (map game_id (game db))) \<longrightarrow> sameBacklog db db') \<and>
         (\<forall>err. extractor sc p = Inl err \<longrightarrow> res = Inl err \<and> db' = db)"
proof (cases rule: scrapeGameDetailPage_cases [where sc = sc and p = p and now = now and db = db])
  case (extraction err)
  then have "res = Inl err" "db' = db" "\<not> mayCommit sc p"
    using run by (simp_all add: mayCommit_def)
  then show ?thesis
    using extraction(1) by (simp add: sameBacklog_refl)
next
  case (persistence d r db1)
  then have res: "res = (case r of Some err \<Rightarrow> Inl err | None \<Rightarrow> Inr ())" and db1: "db' = db1"
    using run by simp_all
  have may: "mayCommit sc p \<and> game_id p \<in> set (map game_id (game db))
      \<longleftrightarrow> commits (storeFaults sc p) (game_id p) d db"
    using persistence(1) by (auto simp: mayCommit_def commits_def)
  have "r = None \<longleftrightarrow> commits (storeFaults sc p) (game_id p) d db \<and> communityFault (storeFaults sc p) = None"
    by (rule updateGameWithAllDetails_result [OF persistence(2)])
  then have c1: "res = Inr () \<longleftrightarrow>
            mayCommit sc p \<and> game_id p \<in> set (map game_id (game db)) \<and>
            communityFault (storeFaults sc p) = None"
    using may unfolding res by (cases r) auto
  have c2: "sameBacklog db db'" if "\<not> (mayCommit sc p \<and> game_id p \<in> set (map game_id (game db)))"
  proof -
    have "\<not> commits (storeFaults sc p) (game_id p) d db"
      using that may by blast
    with persistence(2) have "sameBacklog db db1"
      by (rule updateGameWithAllDetails_uncommitted)
    then show ?thesis
      by (simp only: db1)
  qed
  from c1 c2 persistence(1) show ?thesis
    by simp
qed

lemma scrapeGameDetailPage_keeps:
  assumes run: "scrapeGameDetailPage sc now p db = (res, db')"
    and k: "k < length (game db)"
    and other: "game_id (game db ! k) \<noteq> game_id p \<or> \<not> mayCommit sc p"
  shows "withoutDetails db' (game db' ! k) = withoutDetails db (game db ! k)"
proof (cases "mayCommit sc p")
  case False
  then have "sameBacklog db db'"
    using scrapeGameDetailPage_outcome [OF run] by blast
  then show ?thesis
    by (rule sameBacklog_withoutDetails)
next
  case True
  with other have ne: "game_id (game db ! k) \<noteq> game_id p"
    by simp
  show ?thesis
  proof (cases rule: scrapeGameDetailPage_cases [where sc = sc and p = p and now = now and db = db])
    case (extraction err)
    then show ?thesis
      using run by simp
  next
    case (persistence d r db1)
    then have "db' = db1"
      using run by simp
    then show ?thesis
      using updateGameWithAllDetails_other [OF persistence(2) k ne] by simp
  qed
qed

lemma throttle_single:
  assumes "queue rl = []" and "\<not> running rl" and "\<forall>e \<in> set env. arrivals e = []"
  shows "\<exists>d rl' now'. throttle fn env rl s now = ([d], rl', snd (fn s), now') \<and>
           settlement d = (case fst (fn s) of Inl err \<Rightarrow> Rejected err | Inr result \<Rightarrow> Resolved result) \<and>
           queue rl' = [] \<and> \<not> running rl' \<and>
           minDelay rl' = minDelay rl \<and> maxDelay rl' = maxDelay rl"
proof -
  obtain ds rl' s' now' where run: "throttle fn env rl s now = (ds, rl', s', now')"
    by (cases "throttle fn env rl s now")
  let ?rl = "rl\<lparr>queue := queue rl @ [task fn]\<rparr>"
  have run': "processQueue env ?rl s now = (ds, rl', s', now')"
    using run by (simp add: throttle_def)
  have idle': "\<not> running ?rl"
    using assms(2) by simp
  from run' idle' obtain rl1
    where loop: "dispatchLoop env (?rl\<lparr>running := True\<rparr>) s now = (ds, rl1, s', now')"
      and rl': "rl' = rl1\<lparr>running := False\<rparr>"
    by (rule processQueue_run)
  have "map ran ds = [task fn] @ map task (concat (map arrivals (take (length ds) env)))"
    using dispatchLoop_fifo [OF loop] assms(1) by simp
  moreover have "\<forall>e \<in> set (take (length ds) env). arrivals e = []"
    using assms(3) by (auto dest: in_set_takeD)
  then have "concat (map arrivals (take (length ds) env)) = []"
    by (rule concat_all_empty)
  ultimately have fifo: "map ran ds = [task fn]"
    by simp
  then obtain d where ds: "ds = [d]" and d: "ran d = task fn"
    by auto
  have "runAll (map ran ds) s = (map settlement ds, s')"
    by (rule dispatchLoop_runAll [OF loop])
  then have "task fn s = (settlement d, s')"
    using ds d by (simp split: prod.splits)
  then have "settlement d = fst (task fn s)" "s' = snd (task fn s)"
    by simp_all
  then have out: "settlement d = (case fst (fn s) of Inl err \<Rightarrow> Rejected err | Inr result \<Rightarrow> Resolved result)"
    "s' = snd (fn s)"
    by (simp_all only: task_outcome)
  have "queue rl' = [] \<and> \<not> running rl' \<and> minDelay rl' = minDelay rl \<and> maxDelay rl' = maxDelay rl"
    using dispatchLoop_final [OF loop] by (simp add: rl')
  with run ds out show ?thesis
    by blast
qed

lemma paceOf_quiet: "\<forall>e \<in> set (paceOf ps). arrivals e = []"
  by (auto simp: paceOf_def split: list.splits)

subsection \<open>One batch\<close>

lemma processBatch_Cons:
  assumes "idle st"
  obtains st1 res where "processBatch sc (g # gs) st = processBatch sc gs st1"
    and "idle st1"
    and "scrapeGameDetailPage sc (clock st) g (gameRepository st) = (res, gameRepository st1)"
    and "logger st1 = logger st @ [entryOf sc g (totalProcessed st) res]"
    and "totalProcessed st1 = counted (totalProcessed st) res"
proof -
  let ?fn = "scrapeGameDetailPage sc (clock st) g"
  let ?db = "gameRepository st"
  from assms have "queue (rateLimiter st) = []" "\<not> running (rateLimiter st)"
    by (simp_all add: idle_def)
  from throttle_single [OF this paceOf_quiet, of ?fn "pacing st" ?db "clock st"]
  obtain d rl' now' where run: "throttle ?fn (paceOf (pacing st)) (rateLimiter st) ?db (clock st)
       = ([d], rl', snd (?fn ?db), now')"
    and settled: "settlement d = (case fst (?fn ?db) of Inl err \<Rightarrow> Rejected err | Inr result \<Rightarrow> Resolved result)"
    and rl': "queue rl' = []" "\<not> running rl'"
    by blast
  show ?thesis
  proof (cases "fst (?fn ?db)")
    case (Inl err)
    let ?st1 = "st\<lparr>gameRepository := snd (?fn ?db), rateLimiter := rl', clock := now',
                          pacing := tl (pacing st),
                          logger := logger st @ [FailedToScrape (workerId sc) (name g) err]\<rparr>"
    have "settlement d = Rejected err"
      using settled Inl by simp
    then have "processBatch sc (g # gs) st = processBatch sc gs ?st1"
      using run by simp
    moreover have "idle ?st1"
      using rl' by (simp add: idle_def)
    moreover have "?fn ?db = (Inl err, gameRepository ?st1)"
      using Inl by (simp add: prod_eq_iff)
    moreover have "logger ?st1 = logger st @ [entryOf sc g (totalProcessed st) (Inl err)]"
      by (simp add: entryOf_def)
    moreover have "totalProcessed ?st1 = counted (totalProcessed st) (Inl err)"
      by (simp add: counted_def)
    ultimately show ?thesis
      by (rule that)
  next
    case (Inr u)
    let ?st1 = "st\<lparr>gameRepository := snd (?fn ?db), rateLimiter := rl', clock := now',
                          pacing := tl (pacing st),
                          totalProcessed := totalProcessed st + 1,
                          logger := logger st
                            @ [Completed (workerId sc) (totalProcessed st + 1) (name g)]\<rparr>"
    have "settlement d = Resolved u"
      using settled Inr by simp
    then have "processBatch sc (g # gs) st = processBatch sc gs ?st1"
      using run by simp
    moreover have "idle ?st1"
      using rl' by (simp add: idle_def)
    moreover have "?fn ?db = (Inr u, gameRepository ?st1)"
      using Inr by (simp add: prod_eq_iff)
    moreover have "logger ?st1 = logger st @ [entryOf sc g (totalProcessed st) (Inr u)]"
      by (simp add: entryOf_def)
    moreover have "totalProcessed ?st1 = counted (totalProcessed st) (Inr u)"
      by (simp add: counted_def)
    ultimately show ?thesis
      by (rule that)
  qed
qed

lemma processBatch_run_induct [consumes 1, case_names finished attempt]:
  assumes "idle st"
    and "\<And>st. idle st \<Longrightarrow> P [] st st"
    and "\<And>g gs st st1 res.
           idle st \<Longrightarrow> idle st1 \<Longrightarrow>
           scrapeGameDetailPage sc (clock st) g (gameRepository st) = (res, gameRepository st1) \<Longrightarrow>
           logger st1 = logger st @ [entryOf sc g (totalProcessed st) res] \<Longrightarrow>
           totalProcessed st1 = counted (totalProcessed st) res \<Longrightarrow>
           P gs st1 (processBatch sc gs st1) \<Longrightarrow>
           P (g # gs) st (processBatch sc gs st1)"
  shows "P batch st (processBatch sc batch st)"
  using assms(1)
proof (induction batch arbitrary: st)
  case Nil
  then show ?case
    by (simp add: assms(2))
next
  case (Cons g gs)
  from Cons.prems obtain st1 res
    where step: "processBatch sc (g # gs) st = processBatch sc gs st1"
      and st1: "idle st1"
      and op: "scrapeGameDetailPage sc (clock st) g (gameRepository st) = (res, gameRepository st1)"
      and lg: "logger st1 = logger st @ [entryOf sc g (totalProcessed st) res]"
      and cnt: "totalProcessed st1 = counted (totalProcessed st) res"
    by (rule processBatch_Cons)
  have "P gs st1 (processBatch sc gs st1)"
    using st1 by (rule Cons.IH)
  with Cons.prems st1 op lg cnt have "P (g # gs) st (processBatch sc gs st1)"
    by (rule assms(3))
  then show ?case
    by (simp only: step)
qed

lemma processBatch_idle:
  assumes "idle st"
  shows "idle (processBatch sc batch st)"
  using assms by (induction rule: processBatch_run_induct [where sc = sc and batch = batch]) simp_all

lemma processBatch_rows:
  assumes "idle st"
  shows "map game_id (game (gameRepository (processBatch sc batch st)))
           = map game_id (game (gameRepository st)) \<and>
         map processingBy (game (gameRepository (processBatch sc batch st)))
           = map processingBy (game (gameRepository st)) \<and>
         map processingAt (game (gameRepository (processBatch sc batch st)))
           = map processingAt (game (gameRepository st)) \<and>
         map game_pick.truncate (game (gameRepository (processBatch sc batch st)))
           = map game_pick.truncate (game (gameRepository st))"
  using assms
proof (induction rule: processBatch_run_induct [where sc = sc and batch = batch])
  case (finished st)
  then show ?case by simp
next
  case (attempt g gs st st1 res)
  from scrapeGameDetailPage_rows [OF attempt(3)] attempt(6) show ?case
    by simp
qed

lemma processBatch_attempts:
  assumes "idle st"
  shows "\<exists>times entries. length times = length batch \<and>
           logger (processBatch sc batch st) = logger st @ entries \<and>
           attemptsInOrder sc (zip batch times) (gameRepository st) (totalProcessed st)
             = (entries, gameRepository (processBatch sc batch st),
                totalProcessed (processBatch sc batch st))"
  using assms
proof (induction rule: processBatch_run_induct [where sc = sc and batch = batch])
  case (finished st)
  then show ?case by simp
next
  case (attempt g gs st st1 res)
  from attempt(6) obtain times entries
    where len: "length times = length gs"
      and lg: "logger (processBatch sc gs st1) = logger st1 @ entries"
      and att: "attemptsInOrder sc (zip gs times) (gameRepository st1) (totalProcessed st1)
             = (entries, gameRepository (processBatch sc gs st1), totalProcessed (processBatch sc gs st1))"
    by blast
  let ?e = "entryOf sc g (totalProcessed st) res"
  have "length (clock st # times) = length (g # gs)"
    using len by simp
  moreover have "logger (processBatch sc gs st1) = logger st @ (?e # entries)"
    using lg attempt(4) by simp
  moreover have "attemptsInOrder sc (zip (g # gs) (clock st # times)) (gameRepository st) (totalProcessed st)
      = (?e # entries, gameRepository (processBatch sc gs st1), totalProcessed (processBatch sc gs st1))"
    using att attempt(3,5) by simp
  ultimately show ?case
    by blast
qed

lemma processBatch_keeps:
  assumes "idle st"
    and "k < length (game (gameRepository st))"
    and "\<forall>p \<in> set batch. game_id p = game_id (game (gameRepository st) ! k)
           \<longrightarrow> \<not> mayCommit sc p"
  shows "withoutDetails (gameRepository (processBatch sc batch st))
           (game (gameRepository (processBatch sc batch st)) ! k)
         = withoutDetails (gameRepository st) (game (gameRepository st) ! k)"
  using assms
proof (induction rule: processBatch_run_induct [where sc = sc and batch = batch])
  case (finished st)
  then show ?case by simp
next
  case (attempt g gs st st1 res)
  note rows = scrapeGameDetailPage_rows [OF attempt(3)]
  have len: "length (game (gameRepository st1)) = length (game (gameRepository st))"
    using rows(1) by (rule map_eq_imp_length_eq)
  have "map game_id (game (gameRepository st1)) ! k = map game_id (game (gameRepository st)) ! k"
    by (simp only: rows(1))
  then have same_id: "game_id (game (gameRepository st1) ! k) = game_id (game (gameRepository st) ! k)"
    using attempt(7) len by simp
  have "game_id (game (gameRepository st) ! k) \<noteq> game_id g \<or> \<not> mayCommit sc g"
    using attempt(8) by auto
  with attempt(3,7)
  have one: "withoutDetails (gameRepository st1) (game (gameRepository st1) ! k)
        = withoutDetails (gameRepository st) (game (gameRepository st) ! k)"
    by (rule scrapeGameDetailPage_keeps)
  have "withoutDetails (gameRepository (processBatch sc gs st1))
           (game (gameRepository (processBatch sc gs st1)) ! k)
         = withoutDetails (gameRepository st1) (game (gameRepository st1) ! k)"
    using attempt(7,8) len same_id by (intro attempt(6)) simp_all
  with one show ?case
    by simp
qed

subsection \<open>The whole run\<close>

lemma progressed_trans:
  assumes ab: "progressed sc a b" and bc: "progressed sc b c"
  shows "progressed sc a c"
proof -
  have ids: "map game_id (game b) = map game_id (game a)" "map game_id (game c) = map game_id (game b)"
    and picks: "map game_pick.truncate (game b) = map game_pick.truncate (game a)"
      "map game_pick.truncate (game c) = map game_pick.truncate (game b)"
    using ab bc by (simp_all add: progressed_def)
  have len: "length (game b) = length (game a)"
    using ids(1) by (rule map_eq_imp_length_eq)
  have lease: "processingBy (game c ! k) = processingBy (game a ! k) \<or>
        processingBy (game a ! k) = None \<and> processingBy (game c ! k) = Some (workerId sc)"
    if k: "k < length (game a)" for k
  proof -
    have "processingBy (game b ! k) = processingBy (game a ! k) \<or>
        processingBy (game a ! k) = None \<and> processingBy (game b ! k) = Some (workerId sc)"
      using ab k by (simp add: progressed_def)
    moreover have "processingBy (game c ! k) = processingBy (game b ! k) \<or>
        processingBy (game b ! k) = None \<and> processingBy (game c ! k) = Some (workerId sc)"
      using bc k len by (simp add: progressed_def)
    ultimately show ?thesis
      by auto
  qed
  have keep: "withoutDetails c (game c ! k) = withoutDetails a (game a ! k)"
    if k: "k < length (game a)"
      and fails: "\<not> mayCommit sc (game_pick.truncate (game a ! k))" for k
  proof -
    have "map game_pick.truncate (game b) ! k = map game_pick.truncate (game a) ! k"
      by (simp only: picks(1))
    then have "game_pick.truncate (game b ! k) = game_pick.truncate (game a ! k)"
      using k len by simp
    with fails have "\<not> mayCommit sc (game_pick.truncate (game b ! k))"
      by simp
    then have "withoutDetails c (game c ! k) = withoutDetails b (game b ! k)"
      using bc k len by (simp add: progressed_def)
    moreover have "withoutDetails b (game b ! k) = withoutDetails a (game a ! k)"
      using ab k fails by (simp add: progressed_def)
    ultimately show ?thesis
      by simp
  qed
  show ?thesis
    unfolding progressed_def using ids picks lease keep by simp
qed

lemma filter_map_shrinks:
  assumes "\<And>x. P (f x) \<Longrightarrow> P x"
  shows "length (filter P (map f xs)) \<le> length (filter P xs)"
  using assms by (induction xs) auto

lemma filter_map_shrinks_strictly:
  assumes "\<And>x. P (f x) \<Longrightarrow> P x" and "x \<in> set xs" and "P x" and "\<not> P (f x)"
  shows "length (filter P (map f xs)) < length (filter P xs)"
  using assms(2)
proof (induction xs)
  case Nil
  then show ?case by simp
next
  case (Cons y ys)
  have le: "length (filter P (map f ys)) \<le> length (filter P ys)"
    using assms(1) by (rule filter_map_shrinks)
  show ?case
  proof (cases "x = y")
    case True
    then show ?thesis
      using le assms(3,4) by simp
  next
    case False
    then have "length (filter P (map f ys)) < length (filter P ys)"
      using Cons by simp
    then show ?thesis
      using assms(1) [of y] by auto
  qed
qed

lemma claim_unleased:
  assumes call: "claimGamesForProcessing w n now db = (batch, db')" and "batch \<noteq> []"
  shows "unleased db' < unleased db"
proof -
  let ?f = "\<lambda>g :: game. if game_id g \<in> set (map game_id batch)
               then g\<lparr>processingBy := Some w, processingAt := Some now\<rparr> else g"
  have rows: "game db' = map ?f (game db)"
    using claim_rows [of w n now db] call by simp
  from assms(2) obtain p where p: "p \<in> set batch"
    by (cases batch) auto
  have "batch = map game_pick.truncate (take n (sort_key game_id (filter (available db) (game db))))"
    using claim_batch [of w n now db] call by simp
  with p obtain g where "g \<in> set (take n (sort_key game_id (filter (available db) (game db))))"
    and pg: "p = game_pick.truncate g"
    by auto
  then have "g \<in> set (sort_key game_id (filter (available db) (game db)))"
    by (auto dest: in_set_takeD)
  then have g: "g \<in> set (game db)" "processingBy g = None"
    by (simp_all add: available_def)
  have "game_id g \<in> set (map game_id batch)"
    using p pg by (force simp: game_id_truncate)
  then have leased: "\<not> processingBy (?f g) = None"
    by simp
  have mono: "processingBy (?f x) = None \<Longrightarrow> processingBy x = None" for x
    by (simp split: if_splits)
  have "length (filter (\<lambda>g. processingBy g = None) (map ?f (game db)))
      < length (filter (\<lambda>g. processingBy g = None) (game db))"
    by (rule filter_map_shrinks_strictly
          [where P = "\<lambda>g. processingBy g = None" and f = ?f, OF mono g(1) g(2) leased])
  then show ?thesis
    by (simp add: unleased_def rows)
qed



lemma unleased_by_column:
  "unleased db = length (filter (\<lambda>owner. owner = None) (map processingBy (game db)))"
  by (simp add: unleased_def filter_map comp_def)

lemma claim_progressed:
  assumes ids: "distinct (map game_id (game db))"
    and call: "claimGamesForProcessing (workerId sc) n now db = (batch, db')"
  shows "progressed sc db db'"
proof -
  let ?w = "workerId sc"
  let ?f = "\<lambda>g :: game. if game_id g \<in> set (map game_id batch)
               then g\<lparr>processingBy := Some ?w, processingAt := Some now\<rparr> else g"
  have rows: "game db' = map ?f (game db)"
    using claim_rows [of ?w n now db] call by simp
  have tables: "db' = db\<lparr>game := game db'\<rparr>"
    using claim_only_game [of ?w n now db] call by simp
  have links: "gameCategory db' = gameCategory db" "gameMechanism db' = gameMechanism db"
    "gameFamily db' = gameFamily db"
    by (subst tables, simp)+
  have batch: "map game_id batch
      = map game_id (take n (sort_key game_id (filter (available db) (game db))))"
    using claim_batch [of ?w n now db] call by (simp add: game_id_truncate)
  have f_id: "game_id (?f g) = game_id g" and f_pick: "game_pick.truncate (?f g) = game_pick.truncate g"
    and f_weight: "game.weight (?f g) = game.weight g" for g
    by (simp_all add: game_pick.truncate_def)
  have c1: "map game_id (game db') = map game_id (game db)"
    unfolding rows by (simp add: comp_def f_id)
  have c2: "map game_pick.truncate (game db') = map game_pick.truncate (game db)"
    unfolding rows map_map by (rule map_cong [OF refl]) (simp add: game_pick.truncate_def)
  have c3: "processingBy (game db' ! k) = processingBy (game db ! k) \<or>
        processingBy (game db ! k) = None \<and> processingBy (game db' ! k) = Some ?w"
    if k: "k < length (game db)" for k
  proof (cases "game_id (game db ! k) \<in> set (map game_id batch)")
    case True
    have "game db ! k \<in> set (game db)"
      using k by simp
    with ids have "available db (game db ! k)"
      using True unfolding batch by (rule selected_by_id)
    then have "processingBy (game db ! k) = None"
      by (simp add: available_def)
    moreover have "processingBy (game db' ! k) = Some ?w"
      using k True by (simp add: rows)
    ultimately show ?thesis
      by simp
  next
    case False
    then have "game db' ! k = game db ! k"
      using k by (simp add: rows)
    then show ?thesis
      by simp
  qed
  have c4: "withoutDetails db' (game db' ! k) = withoutDetails db (game db ! k)"
    if k: "k < length (game db)" for k
  proof -
    have "game db' ! k = ?f (game db ! k)"
      using k by (simp add: rows)
    then have "game.weight (game db' ! k) = game.weight (game db ! k)"
      "game_id (game db' ! k) = game_id (game db ! k)"
      by (simp_all only: f_weight f_id)
    then show ?thesis
      using links by (rule withoutDetails_cong)
  qed
  show ?thesis
    unfolding progressed_def using c1 c2 c3 c4 by simp
qed

lemma processBatch_progressed:
  assumes st: "idle st" and ids: "distinct (map game_id (game (gameRepository st)))"
    and batch: "set batch \<subseteq> set (map game_pick.truncate (game (gameRepository st)))"
  shows "progressed sc (gameRepository st) (gameRepository (processBatch sc batch st))"
proof -
  let ?db = "gameRepository st"
  let ?db' = "gameRepository (processBatch sc batch st)"
  note rows = processBatch_rows [OF st, of sc batch]
  have len: "length (game ?db') = length (game ?db)"
    using rows by (blast intro: map_eq_imp_length_eq)
  have c3: "processingBy (game ?db' ! k) = processingBy (game ?db ! k)" if "k < length (game ?db)" for k
  proof -
    have "map processingBy (game ?db') ! k = map processingBy (game ?db) ! k"
      using rows by simp
    then show ?thesis
      using that len by simp
  qed
  have c4: "withoutDetails ?db' (game ?db' ! k) = withoutDetails ?db (game ?db ! k)"
    if k: "k < length (game ?db)"
      and fails: "\<not> mayCommit sc (game_pick.truncate (game ?db ! k))" for k
  proof (rule processBatch_keeps [OF st k], intro ballI impI)
    fix p
    assume "p \<in> set batch" and same: "game_id p = game_id (game ?db ! k)"
    with batch obtain g where g: "g \<in> set (game ?db)" and p: "p = game_pick.truncate g"
      by auto
    have "game_id g = game_id (game ?db ! k)"
      using same p by (simp add: game_id_truncate)
    moreover have "inj_on game_id (set (game ?db))"
      using ids by (simp add: distinct_map)
    moreover have "game ?db ! k \<in> set (game ?db)"
      using k by simp
    ultimately have "g = game ?db ! k"
      using g by (auto dest: inj_onD)
    with fails p show "\<not> mayCommit sc p"
      by simp
  qed
  show ?thesis
    unfolding progressed_def using rows c3 c4 by simp
qed

lemma progressed_ids:
  assumes "progressed sc db db'" and "distinct (map game_id (game db))"
  shows "distinct (map game_id (game db'))"
  using assms by (simp add: progressed_def)

lemma workLoop_returns:
  assumes "idle st" and "distinct (map game_id (game (gameRepository st)))"
  shows "\<exists>st'. workLoop sc st = Some st' \<and>
           progressed sc (gameRepository st) (gameRepository st')"
  using assms
proof (induction "unleased (gameRepository st)" arbitrary: st rule: less_induct)
  case less
  let ?db = "gameRepository st"
  obtain batch db1
    where call: "claimGamesForProcessing (workerId sc) (batchSize sc) (clock st) ?db = (batch, db1)"
    by (cases "claimGamesForProcessing (workerId sc) (batchSize sc) (clock st) ?db")
  have claimed: "progressed sc ?db db1"
    using less.prems(2) call by (rule claim_progressed)
  show ?case
  proof (cases "batch = []")
    case True
    then have "workLoop sc st
        = Some (st\<lparr>gameRepository := db1, logger := logger st @ [NoMoreGames (workerId sc)]\<rparr>)"
      by (subst workLoop.simps) (simp add: call)
    with claimed show ?thesis
      by simp
  next
    case False
    let ?st1 = "st\<lparr>gameRepository := db1, batchCount := batchCount st + 1,
                   logger := logger st @ [BatchStarted (batchCount st + 1) (length batch)]\<rparr>"
    let ?st2 = "processBatch sc batch ?st1"
    let ?st3 = "?st2\<lparr>clock := clock ?st2 + 1000\<rparr>"
    have next_pass: "workLoop sc st = workLoop sc ?st3"
      using False by (subst workLoop.simps) (simp add: call Let_def)
    have st1: "idle ?st1"
      using less.prems(1) by (simp add: idle_def)
    have ids1: "distinct (map game_id (game (gameRepository ?st1)))"
      using progressed_ids [OF claimed less.prems(2)] by simp
    have "batch = map game_pick.truncate
        (take (batchSize sc) (sort_key game_id (filter (available ?db) (game ?db))))"
      using claim_batch [of "workerId sc" "batchSize sc" "clock st" ?db] call by simp
    then have "set batch \<subseteq> set (map game_pick.truncate (game ?db))"
      by (auto dest!: in_set_takeD)
    moreover have "map game_pick.truncate (game db1) = map game_pick.truncate (game ?db)"
      using claimed by (simp add: progressed_def)
    ultimately have from_rows: "set batch \<subseteq> set (map game_pick.truncate (game (gameRepository ?st1)))"
      by simp
    have worked: "progressed sc (gameRepository ?st1) (gameRepository ?st2)"
      using st1 ids1 from_rows by (rule processBatch_progressed)
    then have so_far: "progressed sc ?db (gameRepository ?st3)"
      using progressed_trans [OF claimed, of "gameRepository ?st2"] by simp
    have st3: "idle ?st3"
      using processBatch_idle [OF st1, of sc batch] by (simp add: idle_def)
    have ids3: "distinct (map game_id (game (gameRepository ?st3)))"
      using progressed_ids [OF so_far less.prems(2)] .
    have "map processingBy (game (gameRepository ?st2)) = map processingBy (game db1)"
      using processBatch_rows [OF st1, of sc batch] by simp
    then have "unleased (gameRepository ?st3) = unleased db1"
      by (simp add: unleased_by_column)
    also have "\<dots> < unleased ?db"
      using call False by (rule claim_unleased)
    finally have "unleased (gameRepository ?st3) < unleased ?db" .
    from less.hyps [OF this st3 ids3]
    obtain st' where "workLoop sc ?st3 = Some st'"
      and "progressed sc (gameRepository ?st3) (gameRepository st')"
      by blast
    with next_pass so_far show ?thesis
      by (auto intro: progressed_trans)
  qed
qed

lemma releaseClaimedGames_row:
  assumes "k < length (game db)"
  shows "game_id (game (releaseClaimedGames w db) ! k) = game_id (game db ! k)"
    and "game_pick.truncate (game (releaseClaimedGames w db) ! k) = game_pick.truncate (game db ! k)"
    and "processingBy (game (releaseClaimedGames w db) ! k)
           = (if processingBy (game db ! k) = Some w then None else processingBy (game db ! k))"
    and "withoutDetails (releaseClaimedGames w db) (game (releaseClaimedGames w db) ! k)
           = withoutDetails db (game db ! k)"
proof -
  let ?f = "\<lambda>g :: game. if processingBy g = Some w
               then g\<lparr>processingBy := None, processingAt := None\<rparr> else g"
  have row: "game (releaseClaimedGames w db) ! k = ?f (game db ! k)"
    using assms by (simp add: game_releaseClaimedGames)
  show id: "game_id (game (releaseClaimedGames w db) ! k) = game_id (game db ! k)"
    unfolding row by simp
  show "game_pick.truncate (game (releaseClaimedGames w db) ! k) = game_pick.truncate (game db ! k)"
    unfolding row by (simp add: game_pick.truncate_def)
  show "processingBy (game (releaseClaimedGames w db) ! k)
           = (if processingBy (game db ! k) = Some w then None else processingBy (game db ! k))"
    unfolding row by simp
  have wt: "game.weight (game (releaseClaimedGames w db) ! k) = game.weight (game db ! k)"
    unfolding row by simp
  show "withoutDetails (releaseClaimedGames w db) (game (releaseClaimedGames w db) ! k)
           = withoutDetails db (game db ! k)"
    using wt id by (rule withoutDetails_cong) (simp_all add: releaseClaimedGames_def links_updateMany)
qed


lemma releaseClaimedGames_ids:
  "map game_id (game (releaseClaimedGames w db)) = map game_id (game db)"
  by (rule nth_equalityI) (simp_all add: releaseClaimedGames_row(1) game_releaseClaimedGames)

lemma scrapeGameDetails_batch_mode:
  assumes st: "idle st" and ids: "distinct (map game_id (game (gameRepository st)))"
  shows "\<exists>st' dbB.
           scrapeGameDetails sc None st = Some (None, st') \<and>
           gameRepository st' = releaseClaimedGames (workerId sc) dbB \<and>
           progressed sc (releaseClaimedGames (workerId sc) (gameRepository st)) dbB"
proof -
  let ?w = "workerId sc"
  let ?dbA = "releaseClaimedGames ?w (gameRepository st)"
  let ?st1 = "st\<lparr>gameRepository := ?dbA\<rparr>"
  let ?st1' = "?st1\<lparr>logger := logger ?st1 @ [StartingWorker ?w]\<rparr>"
  have "idle ?st1'"
    using st by (simp add: idle_def)
  moreover have "distinct (map game_id (game (gameRepository ?st1')))"
    using ids by (simp add: releaseClaimedGames_ids)
  ultimately obtain st2 where loop: "workLoop sc ?st1' = Some st2"
    and prog: "progressed sc (gameRepository ?st1') (gameRepository st2)"
    using workLoop_returns [of ?st1' sc] by blast
  let ?st3 = "st2\<lparr>logger := logger st2 @ [WorkerCompleted ?w (totalProcessed st2)]\<rparr>"
  let ?st' = "?st3\<lparr>gameRepository := releaseClaimedGames ?w (gameRepository ?st3)\<rparr>"
  have loop': "workLoop sc (st\<lparr>gameRepository := ?dbA,
        logger := logger st @ [StartingWorker ?w]\<rparr>) = Some st2"
    using loop by simp
  have "scrapeGameDetails sc None st = Some (None, ?st')"
    by (simp add: scrapeGameDetails_def Let_def loop')
  moreover have "gameRepository ?st' = releaseClaimedGames ?w (gameRepository st2)"
    by simp
  moreover have "progressed sc ?dbA (gameRepository st2)"
    using prog by simp
  ultimately show ?thesis
    by blast
qed

text \<open>
  C5, as stated, has the lease of a failing item cleared at the end of its attempt and the
  item left pending. The \<^verbatim>\<open>catch\<close> of the loop only logs. Worker-1 claims item 3 and its
  pages cannot be opened: after the batch the failure is logged and item 3 is still leased
  by worker-1. And a failure of the persistence need not leave the item pending: when the
  store loses the connection in the third step of the update, the failure is logged, the
  weight and the category link of item 3 are committed, and the item is complete.
\<close>

theorem failed_item_stays_leased:
  "fst (claimGamesForProcessing ''worker-1'' 1 1000 backlog0)
     = [\<lparr>game_id = 3, bggUrl = ''u'', name = ''g''\<rparr>] \<and>
   map processingBy (game (gameRepository
      (processBatch flaky (fst (claimGamesForProcessing ''worker-1'' 1 1000 backlog0))
         (newWorker (snd (claimGamesForProcessing ''worker-1'' 1 1000 backlog0)) 1000 []))))
     = [Some ''worker-1'', Some ''worker-2'', None, None, Some ''worker-1''] \<and>
   logger (processBatch flaky (fst (claimGamesForProcessing ''worker-1'' 1 1000 backlog0))
         (newWorker (snd (claimGamesForProcessing ''worker-1'' 1 1000 backlog0)) 1000 []))
     = [FailedToScrape ''worker-1'' ''g'' (Error ''navigation timeout'')] \<and>
   logger (processBatch interrupted (fst (claimGamesForProcessing ''worker-1'' 1 1000 backlog0))
         (newWorker (snd (claimGamesForProcessing ''worker-1'' 1 1000 backlog0)) 1000 []))
     = [FailedToScrape ''worker-1'' ''g'' (Error ''connection lost'')] \<and>
   withoutDetails (snd (claimGamesForProcessing ''worker-1'' 1 1000 backlog0))
     (game (snd (claimGamesForProcessing ''worker-1'' 1 1000 backlog0)) ! 0) \<and>
   \<not> withoutDetails
       (gameRepository
          (processBatch interrupted (fst (claimGamesForProcessing ''worker-1'' 1 1000 backlog0))
             (newWorker (snd (claimGamesForProcessing ''worker-1'' 1 1000 backlog0)) 1000 [])))
       (game (gameRepository
          (processBatch interrupted (fst (claimGamesForProcessing ''worker-1'' 1 1000 backlog0))
             (newWorker (snd (claimGamesForProcessing ''worker-1'' 1 1000 backlog0)) 1000 []))) ! 0) \<and>
   map processingBy (game (gameRepository
      (processBatch interrupted (fst (claimGamesForProcessing ''worker-1'' 1 1000 backlog0))
         (newWorker (snd (claimGamesForProcessing ''worker-1'' 1 1000 backlog0)) 1000 []))))
     = [Some ''worker-1'', Some ''worker-2'', None, None, Some ''worker-1'']"
proof -
  let ?p = "\<lparr>game_id = 3, bggUrl = ''u'', name = ''g''\<rparr>"
  define db1 where "db1 = snd (claimGamesForProcessing ''worker-1'' 1 1000 backlog0)"
  have batch: "fst (claimGamesForProcessing ''worker-1'' 1 1000 backlog0) = [?p]"
    by (simp add: claim_batch backlog0_simps available_def withoutDetails_def game_pick.truncate_def)
  define others where "others =
      [mkGame 1 None (Some ''worker-2'') (Some 5), mkGame 2 (Some 2.5) None None,
       mkGame 4 (Some 1.5) None None, mkGame 5 None (Some ''worker-1'') (Some 7)]"
  have rows1: "game db1 = mkGame 3 None (Some ''worker-1'') (Some 1000) # others"
    unfolding db1_def others_def
    by (simp add: claim_rows batch del: One_nat_def) (simp add: backlog0_simps)
  have "db1 = backlog0\<lparr>game := game db1\<rparr>"
    unfolding db1_def by (rule claim_only_game)
  then have db1: "db1 = mkDb (mkGame 3 None (Some ''worker-1'') (Some 1000) # others) [(2, 7)]"
    unfolding rows1 by (simp add: backlog0_def mkDb_def)
  have leases: "map processingBy (game db1)
     = [Some ''worker-1'', Some ''worker-2'', None, None, Some ''worker-1'']"
    by (simp add: rows1 others_def mkGame_def)
  have pending: "withoutDetails db1 (game db1 ! 0)"
    by (simp add: rows1 withoutDetails_def mkGame_def)
  have run: "processBatch flaky [?p] (newWorker db1 1000 [])
      = (newWorker db1 1000 [])
          \<lparr>rateLimiter := (newRateLimiter 2000 3000)\<lparr>lastRequestTime := 2000\<rparr>,
           clock := 2000, pacing := tl [],
           logger := [FailedToScrape ''worker-1'' ''g'' (Error ''navigation timeout'')]\<rparr>"
    by (simp add: newWorker_def paceOf_def flaky_def scrapeGameDetailPage_def limiter_eval quiet_def)
  define db2 where "db2 = snd (scrapeGameDetailPage interrupted 1000 ?p db1)"
  have upd: "updateGameWithAllDetails (noFaults\<lparr>communityFault := Some (Error ''connection lost'')\<rparr>) 3
        (nothingExtracted\<lparr>weight := Some (Num 2), categories := [''Strategy'']\<rparr>) 1000
        (mkDb (mkGame 3 None (Some ''worker-1'') (Some 1000) # others) [(2, 7)])
      = (Some (Error ''connection lost''),
         (mkDb ((mkGame 3 (Some 2) (Some ''worker-1'') (Some 1000))\<lparr>scrapedAt := 1000\<rparr> # others)
            [(2, 7), (3, 1)])\<lparr>category := [(''Strategy'', 1)]\<rparr>)"
    by (simp add: updateGameWithAllDetails_def nothingExtracted_def noFaults_def lookupNames_def
        stored_def findOrCreateCategory_def upsertByText_def updateGame_def upsertLink_def
        mkDb_def mkGame_def others_def)
  have attempt: "scrapeGameDetailPage interrupted 1000 ?p db1 = (Inl (Error ''connection lost''), db2)"
    unfolding db2_def db1 by (simp add: scrapeGameDetailPage_def interrupted_def upd)
  have db2: "db2 = (mkDb ((mkGame 3 (Some 2) (Some ''worker-1'') (Some 1000))\<lparr>scrapedAt := 1000\<rparr> # others)
            [(2, 7), (3, 1)])\<lparr>category := [(''Strategy'', 1)]\<rparr>"
    unfolding db2_def db1 by (simp add: scrapeGameDetailPage_def interrupted_def upd)
  have rows2: "game db2 = (mkGame 3 (Some 2) (Some ''worker-1'') (Some 1000))\<lparr>scrapedAt := 1000\<rparr> # others"
    and links2: "gameCategory db2 = [(2, 7), (3, 1)]"
    unfolding db2 by (simp_all add: mkDb_def)
  have who: "workerId interrupted = ''worker-1''"
    by (simp add: interrupted_def)
  have run2: "processBatch interrupted [?p] (newWorker db1 1000 [])
      = (newWorker db1 1000 [])
          \<lparr>gameRepository := db2,
           rateLimiter := (newRateLimiter 2000 3000)\<lparr>lastRequestTime := 2000\<rparr>,
           clock := 2000, pacing := tl [],
           logger := [FailedToScrape ''worker-1'' ''g'' (Error ''connection lost'')]\<rparr>"
    by (simp add: newWorker_def paceOf_def attempt who throttle_def processQueue_def
        dispatchLoop.simps dispatchNext_def tickOf_def task_def newRateLimiter_def Let_def quiet_def)
  have complete: "\<not> withoutDetails db2 (game db2 ! 0)"
    by (simp add: withoutDetails_def rows2 links2 mkGame_def)
  have leases2: "map processingBy (game db2)
     = [Some ''worker-1'', Some ''worker-2'', None, None, Some ''worker-1'']"
    by (simp add: rows2 others_def mkGame_def)
  show ?thesis
    unfolding batch db1_def [symmetric] run run2
    using leases pending complete leases2 by (simp add: newWorker_def)
qed

text \<open>
  C5, amended. An attempt succeeds exactly when the extraction succeeds and no call of the
  update throws; a failing extraction leaves the store untouched, and a failure before the
  second step of the update is committed leaves the games and their links untouched. In
  batch mode the \<^verbatim>\<open>for\<close> loop attempts every item of the batch once, in order, each on the
  store the attempts before it left, failed or not; it logs each failure with its error and
  each success with the running count, and leaves every lease as the claim set it: a
  failing item stays leased. The worker's loop ends, and the release in the \<^verbatim>\<open>finally\<close>
  block then clears the leases of this worker and of no other. At that point an item whose
  attempt failed before the commit of the second step is unleased by this worker and as
  pending as it was, so a later claim can select it.
\<close>

theorem failed_item_released_when_worker_ends:
  assumes st: "idle st" and ids: "distinct (map game_id (game (gameRepository st)))"
  shows "(\<forall>p t db res db'.
            scrapeGameDetailPage sc t p db = (res, db') \<longrightarrow>
              (res = Inr () \<longleftrightarrow>
                 mayCommit sc p \<and> game_id p \<in> set (map game_id (game db)) \<and>
                 communityFault (storeFaults sc p) = None) \<and>
              (\<not> (mayCommit sc p \<and> game_id p \<in> set (map game_id (game db))) \<longrightarrow> sameBacklog db db') \<and>
              (\<forall>err. extractor sc p = Inl err \<longrightarrow> res = Inl err \<and> db' = db)) \<and>
         (map processingBy (game (gameRepository (processBatch sc batch st)))
            = map processingBy (game (gameRepository st)) \<and>
          map processingAt (game (gameRepository (processBatch sc batch st)))
            = map processingAt (game (gameRepository st)) \<and>
          (\<exists>times entries.
             length times = length batch \<and>
             logger (processBatch sc batch st) = logger st @ entries \<and>
             attemptsInOrder sc (zip batch times) (gameRepository st) (totalProcessed st)
               = (entries, gameRepository (processBatch sc batch st),
                  totalProcessed (processBatch sc batch st)))) \<and>
         (\<exists>st'. scrapeGameDetails sc None st = Some (None, st') \<and>
            length (game (gameRepository st')) = length (game (gameRepository st)) \<and>
            (\<forall>k < length (game (gameRepository st)).
               game_id (game (gameRepository st') ! k) = game_id (game (gameRepository st) ! k) \<and>
               processingBy (game (gameRepository st') ! k)
                 = (if processingBy (game (gameRepository st) ! k) = Some (workerId sc) then None
                    else processingBy (game (gameRepository st) ! k)) \<and>
               (\<not> mayCommit sc (game_pick.truncate (game (gameRepository st) ! k)) \<longrightarrow>
                  withoutDetails (gameRepository st') (game (gameRepository st') ! k)
                    = withoutDetails (gameRepository st) (game (gameRepository st) ! k))))"
proof -
  let ?w = "workerId sc"
  let ?db = "gameRepository st"
  let ?dbA = "releaseClaimedGames ?w ?db"
  have attempt_part: "\<forall>p t db res db'.
            scrapeGameDetailPage sc t p db = (res, db') \<longrightarrow>
              (res = Inr () \<longleftrightarrow>
                 mayCommit sc p \<and> game_id p \<in> set (map game_id (game db)) \<and>
                 communityFault (storeFaults sc p) = None) \<and>
              (\<not> (mayCommit sc p \<and> game_id p \<in> set (map game_id (game db))) \<longrightarrow> sameBacklog db db') \<and>
              (\<forall>err. extractor sc p = Inl err \<longrightarrow> res = Inl err \<and> db' = db)"
    by (intro allI impI) (rule scrapeGameDetailPage_outcome)
  have batch_part: "map processingBy (game (gameRepository (processBatch sc batch st)))
            = map processingBy (game ?db) \<and>
          map processingAt (game (gameRepository (processBatch sc batch st)))
            = map processingAt (game ?db) \<and>
          (\<exists>times entries.
             length times = length batch \<and>
             logger (processBatch sc batch st) = logger st @ entries \<and>
             attemptsInOrder sc (zip batch times) ?db (totalProcessed st)
               = (entries, gameRepository (processBatch sc batch st),
                  totalProcessed (processBatch sc batch st)))"
    using processBatch_rows [OF st, of sc batch] processBatch_attempts [OF st, of batch sc]
    by simp
  from scrapeGameDetails_batch_mode [OF st ids, of sc]
  obtain st' dbB where run: "scrapeGameDetails sc None st = Some (None, st')"
    and final: "gameRepository st' = releaseClaimedGames ?w dbB"
    and prog: "progressed sc ?dbA dbB"
    by blast
  have lenA: "length (game ?dbA) = length (game ?db)"
    by (simp add: game_releaseClaimedGames)
  have lenB: "length (game dbB) = length (game ?dbA)"
    using prog unfolding progressed_def by (blast intro: map_eq_imp_length_eq)
  have len: "length (game (gameRepository st')) = length (game ?db)"
    by (simp add: final game_releaseClaimedGames lenB lenA)
  have rows: "game_id (game (gameRepository st') ! k) = game_id (game ?db ! k) \<and>
       processingBy (game (gameRepository st') ! k)
         = (if processingBy (game ?db ! k) = Some ?w then None else processingBy (game ?db ! k)) \<and>
       (\<not> mayCommit sc (game_pick.truncate (game ?db ! k)) \<longrightarrow>
          withoutDetails (gameRepository st') (game (gameRepository st') ! k)
            = withoutDetails ?db (game ?db ! k))"
    if k: "k < length (game ?db)" for k
  proof -
    have kA: "k < length (game ?dbA)" and kB: "k < length (game dbB)"
      using k lenA lenB by simp_all
    note first = releaseClaimedGames_row [OF k, of ?w]
    note last = releaseClaimedGames_row [OF kB, of ?w]
    have "map game_id (game dbB) ! k = map game_id (game ?dbA) ! k"
      using prog by (simp add: progressed_def)
    then have idB: "game_id (game dbB ! k) = game_id (game ?dbA ! k)"
      using kA kB by simp
    have leaseB: "processingBy (game dbB ! k) = processingBy (game ?dbA ! k) \<or>
        processingBy (game ?dbA ! k) = None \<and> processingBy (game dbB ! k) = Some ?w"
      using prog kA by (simp add: progressed_def)
    have c1: "game_id (game (gameRepository st') ! k) = game_id (game ?db ! k)"
      by (simp only: final last(1) idB first(1))
    have c2: "processingBy (game (gameRepository st') ! k)
         = (if processingBy (game ?db ! k) = Some ?w then None else processingBy (game ?db ! k))"
      using leaseB unfolding final last(3) first(3) by auto
    have c3: "withoutDetails (gameRepository st') (game (gameRepository st') ! k)
            = withoutDetails ?db (game ?db ! k)"
      if fails: "\<not> mayCommit sc (game_pick.truncate (game ?db ! k))"
    proof -
      have "\<not> mayCommit sc (game_pick.truncate (game ?dbA ! k))"
        unfolding first(2) by (rule fails)
      then have "withoutDetails dbB (game dbB ! k) = withoutDetails ?dbA (game ?dbA ! k)"
        using prog kA by (simp add: progressed_def)
      then show ?thesis
        by (simp only: final last(4) first(4))
    qed
    from c1 c2 c3 show ?thesis
      by blast
  qed
  have run_part: "\<exists>st'. scrapeGameDetails sc None st = Some (None, st') \<and>
            length (game (gameRepository st')) = length (game ?db) \<and>
            (\<forall>k < length (game ?db).
               game_id (game (gameRepository st') ! k) = game_id (game ?db ! k) \<and>
               processingBy (game (gameRepository st') ! k)
                 = (if processingBy (game ?db ! k) = Some ?w then None
                    else processingBy (game ?db ! k)) \<and>
               (\<not> mayCommit sc (game_pick.truncate (game ?db ! k)) \<longrightarrow>
                  withoutDetails (gameRepository st') (game (gameRepository st') ! k)
                    = withoutDetails ?db (game ?db ! k)))"
    using run len rows by blast
  show ?thesis
    by (intro conjI attempt_part batch_part [THEN conjunct1]
        batch_part [THEN conjunct2, THEN conjunct1] batch_part [THEN conjunct2, THEN conjunct2]
        run_part)
qed

text \<open>
  Worker-1 on the backlog of five items, the pages of item 3 failing: the run returns
  without an error; at its end no item is leased by worker-1, the lease of worker-2 is
  where it was, and item 3 is still pending.
\<close>

theorem failed_item_released_when_worker_ends_witness:
  "idle (newWorker backlog0 1000 []) \<and>
   distinct (map game_id (game backlog0)) \<and>
   extractor flaky (game_pick.truncate (game backlog0 ! 0)) = Inl (Error ''navigation timeout'') \<and>
   (\<exists>st'. scrapeGameDetails flaky None (newWorker backlog0 1000 []) = Some (None, st') \<and>
      map processingBy (game (gameRepository st')) = [None, Some ''worker-2'', None, None, None] \<and>
      withoutDetails (gameRepository st') (game (gameRepository st') ! 0))"
proof -
  let ?st = "newWorker backlog0 1000 []"
  have db: "gameRepository ?st = backlog0" and w: "workerId flaky = ''worker-1''"
    by (simp_all add: newWorker_def flaky_def)
  have st: "idle ?st"
    by (simp add: idle_def newWorker_def newRateLimiter_def)
  have ids: "distinct (map game_id (game (gameRepository ?st)))"
    unfolding db by (simp add: backlog0_simps)
  have fails: "extractor flaky (game_pick.truncate (game backlog0 ! 0)) = Inl (Error ''navigation timeout'')"
    by (simp add: flaky_def backlog0_simps game_pick.truncate_def)
  then have cannot: "\<not> mayCommit flaky (game_pick.truncate (game backlog0 ! 0))"
    by (simp add: mayCommit_def)
  have pending: "withoutDetails backlog0 (game backlog0 ! 0)"
    by (simp add: backlog0_simps withoutDetails_def)
  have len0: "length (game backlog0) = 5"
    by (simp add: backlog0_simps)
  from failed_item_released_when_worker_ends [OF st ids, of flaky "[]", THEN conjunct2, THEN conjunct2]
  obtain st' where run: "scrapeGameDetails flaky None ?st = Some (None, st')"
    and len: "length (game (gameRepository st')) = length (game backlog0)"
    and rows: "\<forall>k < length (game backlog0).
               game_id (game (gameRepository st') ! k) = game_id (game backlog0 ! k) \<and>
               processingBy (game (gameRepository st') ! k)
                 = (if processingBy (game backlog0 ! k) = Some ''worker-1'' then None
                    else processingBy (game backlog0 ! k)) \<and>
               (\<not> mayCommit flaky (game_pick.truncate (game backlog0 ! k)) \<longrightarrow>
                  withoutDetails (gameRepository st') (game (gameRepository st') ! k)
                    = withoutDetails backlog0 (game backlog0 ! k))"
    unfolding db w by blast
  have "map processingBy (game (gameRepository st'))
      = map (\<lambda>r. if processingBy r = Some ''worker-1'' then None else processingBy r) (game backlog0)"
    using rows len by (intro nth_equalityI) simp_all
  also have "\<dots> = [None, Some ''worker-2'', None, None, None]"
    by (simp add: backlog0_simps)
  finally have leases: "map processingBy (game (gameRepository st'))
      = [None, Some ''worker-2'', None, None, None]" .
  have "withoutDetails (gameRepository st') (game (gameRepository st') ! 0)
      = withoutDetails backlog0 (game backlog0 ! 0)"
    using rows cannot len0 by auto
  with pending have still: "withoutDetails (gameRepository st') (game (gameRepository st') ! 0)"
    by simp
  from run leases still
  have "\<exists>st'. scrapeGameDetails flaky None ?st = Some (None, st') \<and>
      map processingBy (game (gameRepository st')) = [None, Some ''worker-2'', None, None, None] \<and>
      withoutDetails (gameRepository st') (game (gameRepository st') ! 0)"
    by (intro exI [of _ st'] conjI)
  with st ids fails show ?thesis
    unfolding db by (intro conjI)
qed

section \<open>A failed sweep at the start\<close>



end
